theory Spec2Isabelle
  imports Complex_Main "HOL-Library.Sublist"
begin

section \<open>Shared data model (types.ts)\<close>

text \<open>
  JavaScript numbers that hold byte sizes, counters and millisecond timestamps are modelled
  as unbounded integers. The code computes with doubles, which are exact on integers of
  magnitude up to \<open>2 ^ 53\<close>; the model is that of the code while every size, sum and
  timestamp stays in that range (capacities below 8 PiB). A JavaScript \<^verbatim>\<open>Map\<close> iterates in insertion order, so it is an
  association list with unique keys: \<^verbatim>\<open>set\<close> on a present key replaces the value in place,
  \<^verbatim>\<open>set\<close> on an absent key appends, \<^verbatim>\<open>delete\<close> removes.
\<close>

datatype model_format = gguf | tflite | onnx | pte

record ModelInfo =
  info_name :: string
  info_format :: model_format
  info_size :: int

record LoadedModel =
  model_id :: string
  info :: ModelInfo

record CacheEntry =
  key :: string
  modelId :: string
  entry_size :: int
  lastAccessed :: int
  hitCount :: int

fun Map_set :: "('k \<times> 'v) list \<Rightarrow> 'k \<Rightarrow> 'v \<Rightarrow> ('k \<times> 'v) list" where
  "Map_set [] k v = [(k, v)]"
| "Map_set ((k', v') # rest) k v =
     (if k' = k then (k, v) # rest else (k', v') # Map_set rest k v)"

definition Map_delete :: "('k \<times> 'v) list \<Rightarrow> 'k \<Rightarrow> ('k \<times> 'v) list" where
  "Map_delete m k = filter (\<lambda>kv. fst kv \<noteq> k) m"

definition Map_get :: "('k \<times> 'v) list \<Rightarrow> 'k \<Rightarrow> 'v option" where
  "Map_get m k = map_of m k"

section \<open>LRUCache (runtime/LRUCache.ts)\<close>

text \<open>
  The cache state is the three fields of the class plus \<open>unloaded\<close>, the log of the model
  ids handed to \<^verbatim>\<open>adapter.unloadModel\<close>, oldest first. The adapters of this repository catch
  every error inside \<^verbatim>\<open>unloadModel\<close>, so the call is modelled as one that always completes.
  \<^verbatim>\<open>new Date()\<close> is the parameter \<open>now\<close> of the operations that read the clock.
\<close>

type_synonym cached = "LoadedModel \<times> CacheEntry"

record LRUCache =
  cache :: "(string \<times> cached) list"
  maxSize :: int
  currentSize :: int
  unloaded :: "string list"

datatype cache_error = CapacityExceeded int int

definition LRUCache_new :: "int \<Rightarrow> LRUCache" where
  "LRUCache_new maxSizeMB =
     \<lparr>cache = [], maxSize = maxSizeMB * 1024 * 1024, currentSize = 0, unloaded = []\<rparr>"

definition LRUCache_get :: "LRUCache \<Rightarrow> string \<Rightarrow> int \<Rightarrow> LoadedModel option \<times> LRUCache" where
  "LRUCache_get c k now =
     (case Map_get (cache c) k of
        None \<Rightarrow> (None, c)
      | Some (model, entry) \<Rightarrow>
          (let entry' = entry\<lparr>lastAccessed := now, hitCount := hitCount entry + 1\<rparr>
           in (Some model,
               c\<lparr>cache := Map_set (Map_delete (cache c) k) k (model, entry')\<rparr>)))"

definition LRUCache_delete :: "LRUCache \<Rightarrow> string \<Rightarrow> LRUCache" where
  "LRUCache_delete c k =
     (case Map_get (cache c) k of
        None \<Rightarrow> c
      | Some (model, entry) \<Rightarrow>
          c\<lparr>currentSize := currentSize c - entry_size entry,
            unloaded := unloaded c @ [model_id model],
            cache := Map_delete (cache c) k\<rparr>)"

text \<open>
  The scan of \<^verbatim>\<open>evictLRU\<close>: \<open>oldestKey\<close> and \<open>oldestTime\<close> start as null; an entry replaces
  them when \<open>oldestTime\<close> is still null or its timestamp is strictly smaller.
\<close>

fun oldest_scan ::
  "(string \<times> cached) list \<Rightarrow> string option \<times> int option \<Rightarrow> string option \<times> int option" where
  "oldest_scan [] acc = acc"
| "oldest_scan ((k, cd) # rest) (oldestKey, oldestTime) =
     (if (case oldestTime of None \<Rightarrow> True | Some t \<Rightarrow> lastAccessed (snd cd) < t)
      then oldest_scan rest (Some k, Some (lastAccessed (snd cd)))
      else oldest_scan rest (oldestKey, oldestTime))"

text \<open>
  \<^verbatim>\<open>if (oldestKey)\<close> is a truthiness test: it fails for null and also for the empty string.
\<close>

definition LRUCache_evictLRU :: "LRUCache \<Rightarrow> LRUCache" where
  "LRUCache_evictLRU c =
     (case fst (oldest_scan (cache c) (None, None)) of
        None \<Rightarrow> c
      | Some oldestKey \<Rightarrow> if oldestKey = [] then c else LRUCache_delete c oldestKey)"

text \<open>
  The \<^verbatim>\<open>while\<close> loop at the head of \<^verbatim>\<open>set\<close>. The value \<open>None\<close> stands for a loop that
  never exits.
\<close>

partial_function (option) evict_loop :: "LRUCache \<Rightarrow> int \<Rightarrow> LRUCache option" where
  "evict_loop c modelSize =
     (if currentSize c + modelSize > maxSize c \<and> length (cache c) > 0
      then evict_loop (LRUCache_evictLRU c) modelSize
      else Some c)"

declare evict_loop.simps [code]

text \<open>
  \<^verbatim>\<open>set\<close> returns the state it leaves behind together with its outcome: \<open>Inl\<close> for the thrown
  capacity error, \<open>Inr ()\<close> for normal completion.
\<close>

definition LRUCache_set ::
  "LRUCache \<Rightarrow> string \<Rightarrow> LoadedModel \<Rightarrow> int \<Rightarrow> ((cache_error + unit) \<times> LRUCache) option" where
  "LRUCache_set c0 k model now =
     (let modelSize = info_size (info model) in
      case evict_loop c0 modelSize of
        None \<Rightarrow> None
      | Some c \<Rightarrow>
          if modelSize > maxSize c then Some (Inl (CapacityExceeded modelSize (maxSize c)), c)
          else
            (let entry = \<lparr>key = k, modelId = model_id model, entry_size = modelSize,
                           lastAccessed = now, hitCount = 1\<rparr>;
                 c1 = (case Map_get (cache c) k of
                         None \<Rightarrow> c
                       | Some (exModel, exEntry) \<Rightarrow>
                           c\<lparr>currentSize := currentSize c - entry_size exEntry,
                             unloaded := unloaded c @ [model_id exModel]\<rparr>)
             in Some (Inr (),
                  c1\<lparr>cache := Map_set (cache c1) k (model, entry),
                     currentSize := currentSize c1 + modelSize\<rparr>)))"

definition LRUCache_clear :: "LRUCache \<Rightarrow> LRUCache" where
  "LRUCache_clear c =
     c\<lparr>unloaded := unloaded c @ map (\<lambda>kv. model_id (fst (snd kv))) (cache c),
       cache := [],
       currentSize := 0\<rparr>"

record CacheStats =
  totalSize :: int
  entryCount :: nat
  hitRate :: real

definition totalHits :: "LRUCache \<Rightarrow> int" where
  "totalHits c = foldl (\<lambda>sum kv. sum + hitCount (snd (snd kv))) 0 (cache c)"

definition LRUCache_getStats :: "LRUCache \<Rightarrow> CacheStats" where
  "LRUCache_getStats c =
     (let totalAccesses = totalHits c;
          rate = (if totalAccesses > 0 then real_of_int (totalHits c) / real_of_int totalAccesses
                  else 0)
      in \<lparr>totalSize = currentSize c, entryCount = length (cache c), hitRate = rate\<rparr>)"

definition LRUCache_prune :: "LRUCache \<Rightarrow> int \<Rightarrow> int \<Rightarrow> nat \<times> LRUCache" where
  "LRUCache_prune c maxAge now =
     (let keysToDelete =
            map fst (filter (\<lambda>kv. now - lastAccessed (snd (snd kv)) > maxAge) (cache c))
      in (length keysToDelete, foldl LRUCache_delete c keysToDelete))"

text \<open>The states a cache can be in: those produced from the constructor by its methods.\<close>

inductive reachable :: "LRUCache \<Rightarrow> bool" where
  r_new: "reachable (LRUCache_new maxSizeMB)"
| r_get: "reachable c \<Longrightarrow> reachable (snd (LRUCache_get c k now))"
| r_set: "reachable c \<Longrightarrow> LRUCache_set c k model now = Some (r, c') \<Longrightarrow> reachable c'"
| r_delete: "reachable c \<Longrightarrow> reachable (LRUCache_delete c k)"
| r_clear: "reachable c \<Longrightarrow> reachable (LRUCache_clear c)"
| r_prune: "reachable c \<Longrightarrow> reachable (snd (LRUCache_prune c maxAge now))"

definition entry_sizes :: "LRUCache \<Rightarrow> int list" where
  "entry_sizes c = map (\<lambda>kv. entry_size (snd (snd kv))) (cache c)"

definition cache_keys :: "LRUCache \<Rightarrow> string list" where
  "cache_keys c = map fst (cache c)"

text \<open>
  The bookkeeping invariant of the cache: keys are unique, \<open>currentSize\<close> is the exact sum
  of the entry sizes, and no entry has a negative size.
\<close>

definition cache_inv :: "LRUCache \<Rightarrow> bool" where
  "cache_inv c \<longleftrightarrow>
     distinct (cache_keys c) \<and> currentSize c = sum_list (entry_sizes c)
     \<and> list_all (\<lambda>s. 0 \<le> s) (entry_sizes c)"

definition hits_ok :: "LRUCache \<Rightarrow> bool" where
  "hits_ok c \<longleftrightarrow> list_all (\<lambda>kv. 1 \<le> hitCount (snd (snd kv))) (cache c)"

text \<open>The state after a \<^verbatim>\<open>set\<close> that completed without error.\<close>

definition set_ok :: "LRUCache \<Rightarrow> string \<Rightarrow> LoadedModel \<Rightarrow> int \<Rightarrow> LRUCache option" where
  "set_ok c k model now =
     (case LRUCache_set c k model now of
        Some (Inr u, c') \<Rightarrow> Some c'
      | Some (Inl e, c') \<Rightarrow> None
      | None \<Rightarrow> None)"

text \<open>
  A sequence of \<^verbatim>\<open>set\<close> calls (key, model, clock reading), each awaited before the next;
  a call that throws leaves its state to the next call. The result lists the outcome and
  the state after every call, and is \<open>None\<close> when some call never returns.
\<close>

fun set_seq ::
  "LRUCache \<Rightarrow> (string \<times> LoadedModel \<times> int) list
     \<Rightarrow> ((cache_error + unit) \<times> LRUCache) list option" where
  "set_seq c [] = Some []"
| "set_seq c ((k, model, now) # rest) =
     (case LRUCache_set c k model now of
        None \<Rightarrow> None
      | Some (r, c') \<Rightarrow> map_option ((#) (r, c')) (set_seq c' rest))"

text \<open>
  The scenario of the LRU-order property: A, B and C are set in that order on a fresh
  cache, then A is read with \<^verbatim>\<open>get\<close>. The clock readings are those of the four calls.
\<close>

definition abc_then_get ::
  "int \<Rightarrow> string \<Rightarrow> LoadedModel \<Rightarrow> int \<Rightarrow> string \<Rightarrow> LoadedModel \<Rightarrow> int
     \<Rightarrow> string \<Rightarrow> LoadedModel \<Rightarrow> int \<Rightarrow> int \<Rightarrow> LRUCache option" where
  "abc_then_get maxSizeMB kA mA t1 kB mB t2 kC mC t3 t4 =
     (case set_ok (LRUCache_new maxSizeMB) kA mA t1 of
        None \<Rightarrow> None
      | Some c1 \<Rightarrow>
          (case set_ok c1 kB mB t2 of
             None \<Rightarrow> None
           | Some c2 \<Rightarrow>
               (case set_ok c2 kC mC t3 of
                  None \<Rightarrow> None
                | Some c3 \<Rightarrow> Some (snd (LRUCache_get c3 kA t4)))))"

definition mk_model :: "string \<Rightarrow> int \<Rightarrow> LoadedModel" where
  "mk_model i s = \<lparr>model_id = i, info = \<lparr>info_name = i, info_format = gguf, info_size = s\<rparr>\<rparr>"

section \<open>ModelRegistry (runtime/ModelRegistry.js)\<close>

record AdapterCapabilities =
  supportsStreaming :: bool
  supportsGPU :: bool
  supportsQuantization :: "string list"

record ModelAdapter =
  format :: model_format
  canHandle :: "string \<Rightarrow> ModelInfo option \<Rightarrow> bool"
  getCapabilities :: AdapterCapabilities

record HardwareInfo =
  hasGPU :: bool

record ModelRegistry =
  adapters :: "(model_format \<times> ModelAdapter) list"

definition ModelRegistry_new :: ModelRegistry where
  "ModelRegistry_new = \<lparr>adapters = []\<rparr>"

definition registerAdapter :: "ModelRegistry \<Rightarrow> ModelAdapter \<Rightarrow> ModelRegistry" where
  "registerAdapter reg adapter = reg\<lparr>adapters := Map_set (adapters reg) (format adapter) adapter\<rparr>"

text \<open>The score of one adapter, accumulated in the order of the four \<^verbatim>\<open>if\<close> statements.\<close>

definition adapter_score :: "ModelAdapter \<Rightarrow> ModelInfo option \<Rightarrow> HardwareInfo option \<Rightarrow> int" where
  "adapter_score adapter modelInfo hardware =
     (let capabilities = getCapabilities adapter;
          s0 = 0;
          s1 = (if map_option info_format modelInfo = Some (format adapter) then s0 + 100 else s0);
          s2 = (if (case hardware of None \<Rightarrow> False | Some h \<Rightarrow> hasGPU h) \<and> supportsGPU capabilities
                then s1 + 50 else s1);
          s3 = (if supportsStreaming capabilities then s2 + 20 else s2);
          s4 = (if length (supportsQuantization capabilities) > 0 then s3 + 10 else s3)
      in s4)"

fun collect_candidates ::
  "ModelAdapter list \<Rightarrow> string \<Rightarrow> ModelInfo option \<Rightarrow> HardwareInfo option
     \<Rightarrow> (ModelAdapter \<times> int) list" where
  "collect_candidates [] modelPath modelInfo hardware = []"
| "collect_candidates (adapter # rest) modelPath modelInfo hardware =
     (if \<not> canHandle adapter modelPath modelInfo
      then collect_candidates rest modelPath modelInfo hardware
      else (adapter, adapter_score adapter modelInfo hardware)
             # collect_candidates rest modelPath modelInfo hardware)"

text \<open>
  \<^verbatim>\<open>candidates.sort((a, b) => b.score - a.score)\<close>: \<^verbatim>\<open>Array.prototype.sort\<close> is a stable sort,
  here by descending score; \<^const>\<open>sort_key\<close> is a stable insertion sort by ascending key.
\<close>

definition selectBestAdapter ::
  "ModelRegistry \<Rightarrow> string \<Rightarrow> ModelInfo option \<Rightarrow> HardwareInfo option \<Rightarrow> ModelAdapter option" where
  "selectBestAdapter reg modelPath modelInfo hardware =
     (let candidates = collect_candidates (map snd (adapters reg)) modelPath modelInfo hardware
      in if length candidates = 0 then None
         else (case sort_key (\<lambda>c. - snd c) candidates of
                 [] \<Rightarrow> None
               | c # _ \<Rightarrow> Some (fst c)))"

text \<open>
  The selection as the specification words it: the score is the sum of the four bonuses,
  and the winner is the first adapter, in iteration order, among those that can handle the
  input and reach the highest score.
\<close>

definition spec_score :: "ModelAdapter \<Rightarrow> ModelInfo option \<Rightarrow> HardwareInfo option \<Rightarrow> int" where
  "spec_score a modelInfo hardware =
     (if map_option info_format modelInfo = Some (format a) then 100 else 0)
   + (if map_option hasGPU hardware = Some True \<and> supportsGPU (getCapabilities a) then 50 else 0)
   + (if supportsStreaming (getCapabilities a) then 20 else 0)
   + (if supportsQuantization (getCapabilities a) \<noteq> [] then 10 else 0)"

definition spec_select ::
  "ModelAdapter list \<Rightarrow> string \<Rightarrow> ModelInfo option \<Rightarrow> HardwareInfo option \<Rightarrow> ModelAdapter option" where
  "spec_select as modelPath modelInfo hardware =
     find (\<lambda>a. canHandle a modelPath modelInfo
               \<and> (\<forall>b \<in> set as. canHandle b modelPath modelInfo
                     \<longrightarrow> spec_score b modelInfo hardware \<le> spec_score a modelInfo hardware))
       as"

text \<open>Three sample adapters: one for gguf files with every capability, two that accept any
  input and declare no capability.\<close>

definition adapter_alpha :: ModelAdapter where
  "adapter_alpha =
     \<lparr>format = gguf,
      canHandle = (\<lambda>p i. map_option info_format i = Some gguf),
      getCapabilities =
        \<lparr>supportsStreaming = True, supportsGPU = True, supportsQuantization = [''4bit'']\<rparr>\<rparr>"

definition adapter_beta :: ModelAdapter where
  "adapter_beta =
     \<lparr>format = tflite,
      canHandle = (\<lambda>p i. True),
      getCapabilities =
        \<lparr>supportsStreaming = False, supportsGPU = False, supportsQuantization = []\<rparr>\<rparr>"

definition adapter_gamma :: ModelAdapter where
  "adapter_gamma =
     \<lparr>format = onnx,
      canHandle = (\<lambda>p i. True),
      getCapabilities =
        \<lparr>supportsStreaming = False, supportsGPU = False, supportsQuantization = []\<rparr>\<rparr>"

section \<open>Streaming utilities (utils/StreamingUtils.ts)\<close>

subsection \<open>TokenBuffer\<close>

record TokenBuffer =
  buffer :: "string list"
  tb_maxSize :: int

definition TokenBuffer_new :: "int \<Rightarrow> TokenBuffer" where
  "TokenBuffer_new maxSize' = \<lparr>buffer = [], tb_maxSize = maxSize'\<rparr>"

text \<open>\<^verbatim>\<open>push\<close> then, when the length exceeds the capacity, one \<^verbatim>\<open>shift\<close>.\<close>

definition TokenBuffer_add :: "TokenBuffer \<Rightarrow> string \<Rightarrow> TokenBuffer" where
  "TokenBuffer_add b token =
     (let pushed = buffer b @ [token]
      in if int (length pushed) > tb_maxSize b then b\<lparr>buffer := tl pushed\<rparr>
         else b\<lparr>buffer := pushed\<rparr>)"

text \<open>
  \<^verbatim>\<open>Array.prototype.slice(start)\<close> with one integer argument: a negative start counts from
  the end and is clamped at 0, a non-negative one is clamped at the length.
\<close>

definition Array_slice :: "'a list \<Rightarrow> int \<Rightarrow> 'a list" where
  "Array_slice xs start =
     (let len = int (length xs);
          k = (if start < 0 then max (len + start) 0 else min start len)
      in drop (nat k) xs)"

definition TokenBuffer_getLastN :: "TokenBuffer \<Rightarrow> int \<Rightarrow> string list" where
  "TokenBuffer_getLastN b n = Array_slice (buffer b) (- n)"

definition TokenBuffer_getText :: "TokenBuffer \<Rightarrow> string" where
  "TokenBuffer_getText b = concat (buffer b)"

definition TokenBuffer_getAll :: "TokenBuffer \<Rightarrow> string list" where
  "TokenBuffer_getAll b = buffer b"

definition add_all :: "TokenBuffer \<Rightarrow> string list \<Rightarrow> TokenBuffer" where
  "add_all b tokens = foldl TokenBuffer_add b tokens"

subsection \<open>BackpressureHandler\<close>

text \<open>
  Every call of \<^verbatim>\<open>acquire\<close> carries the number of the promise it returns. \<open>waitingResolvers\<close>
  holds the numbers of the suspended calls, oldest first, and \<open>resolved\<close> logs the calls whose
  promise has been resolved, in the order of resolution.
\<close>

record BackpressureHandler =
  pending :: int
  maxPending :: int
  waitingResolvers :: "nat list"
  resolved :: "nat list"

definition BackpressureHandler_new :: "int \<Rightarrow> BackpressureHandler" where
  "BackpressureHandler_new maxPending' =
     \<lparr>pending = 0, maxPending = maxPending', waitingResolvers = [], resolved = []\<rparr>"

definition acquire :: "BackpressureHandler \<Rightarrow> nat \<Rightarrow> BackpressureHandler" where
  "acquire h p =
     (if pending h < maxPending h
      then h\<lparr>pending := pending h + 1, resolved := resolved h @ [p]\<rparr>
      else h\<lparr>waitingResolvers := waitingResolvers h @ [p]\<rparr>)"

text \<open>
  \<^verbatim>\<open>release\<close> is synchronous; \<open>release_decremented\<close> is the state between its first statement
  and the \<^verbatim>\<open>shift\<close>.
\<close>

definition release_decremented :: "BackpressureHandler \<Rightarrow> BackpressureHandler" where
  "release_decremented h = h\<lparr>pending := pending h - 1\<rparr>"

definition release :: "BackpressureHandler \<Rightarrow> BackpressureHandler" where
  "release h =
     (let h1 = release_decremented h
      in case waitingResolvers h1 of
           [] \<Rightarrow> h1
         | resolver # rest \<Rightarrow>
             h1\<lparr>waitingResolvers := rest, pending := pending h1 + 1,
                resolved := resolved h1 @ [resolver]\<rparr>)"

definition pendingCount :: "BackpressureHandler \<Rightarrow> int" where
  "pendingCount h = pending h"

definition waitingCount :: "BackpressureHandler \<Rightarrow> nat" where
  "waitingCount h = length (waitingResolvers h)"

datatype bp_call = Acquire nat | Release

fun bp_step :: "BackpressureHandler \<Rightarrow> bp_call \<Rightarrow> BackpressureHandler" where
  "bp_step h (Acquire p) = acquire h p"
| "bp_step h Release = release h"

definition bp_run :: "BackpressureHandler \<Rightarrow> bp_call list \<Rightarrow> BackpressureHandler" where
  "bp_run h calls = foldl bp_step h calls"

section \<open>ErrorHandler (utils/ErrorHandler.ts)\<close>

datatype ErrorCode =
    MODEL_NOT_FOUND | MODEL_LOAD_FAILED | INFERENCE_FAILED | UNSUPPORTED_FORMAT | INVALID_INPUT
  | MEMORY_ERROR | TIMEOUT_ERROR | NETWORK_ERROR | HARDWARE_ERROR | CONFIGURATION_ERROR

text \<open>
  A thrown error is an \<^verbatim>\<open>AIError\<close> (code, message, recoverable flag) or a plain \<^verbatim>\<open>Error\<close>
  (message). Messages are ASCII strings.
\<close>

datatype js_error = AIError ErrorCode string bool | Error string

datatype 'a outcome = Returned 'a | Threw js_error | ThrewUndefined

definition retryableErrors :: "ErrorCode list" where
  "retryableErrors = [MODEL_LOAD_FAILED, INFERENCE_FAILED, TIMEOUT_ERROR, NETWORK_ERROR]"

definition toLowerCase_char :: "char \<Rightarrow> char" where
  "toLowerCase_char ch =
     (let n = (of_char ch :: nat) in if 65 \<le> n \<and> n \<le> 90 then char_of (n + 32) else ch)"

definition toLowerCase :: "string \<Rightarrow> string" where
  "toLowerCase s = map toLowerCase_char s"

definition String_includes :: "string \<Rightarrow> string \<Rightarrow> bool" where
  "String_includes s needle = sublist needle s"

fun isRetryable :: "js_error \<Rightarrow> bool" where
  "isRetryable (AIError code msg recoverable) = (recoverable \<and> code \<in> set retryableErrors)"
| "isRetryable (Error msg) =
     (let message = toLowerCase msg
      in String_includes message ''timeout'' \<or> String_includes message ''network''
         \<or> String_includes message ''connection'' \<or> String_includes message ''temporary'')"

text \<open>
  The operation is the sequence of the outcomes of its successive calls: \<open>operation k\<close> is what
  call number \<open>k\<close> (counted from 0) settles with. The loop carries \<open>lastError\<close>, the counter and
  the log of the delays slept so far; it returns the outcome, the number of calls made and
  the delays. The counter of the loop is also the number of calls made so far.
\<close>

function withRetry_loop ::
  "(nat \<Rightarrow> js_error + 'a) \<Rightarrow> int \<Rightarrow> int \<Rightarrow> js_error option \<Rightarrow> nat \<Rightarrow> int list
     \<Rightarrow> 'a outcome \<times> nat \<times> int list" where
  "withRetry_loop operation maxRetries backoffMs lastError attempt delays =
     (if int attempt \<le> maxRetries then
        (case operation attempt of
           Inr v \<Rightarrow> (Returned v, attempt + 1, delays)
         | Inl e \<Rightarrow>
             if int attempt = maxRetries \<or> \<not> isRetryable e then (Threw e, attempt + 1, delays)
             else withRetry_loop operation maxRetries backoffMs (Some e) (attempt + 1)
                    (delays @ [backoffMs * 2 ^ attempt]))
      else (case lastError of None \<Rightarrow> ThrewUndefined | Some e \<Rightarrow> Threw e, attempt, delays))"
  by pat_completeness auto
termination
  by (relation "measure (\<lambda>(operation, maxRetries, backoffMs, lastError, attempt, delays).
                           nat (maxRetries + 1 - int attempt))") auto

definition withRetry ::
  "(nat \<Rightarrow> js_error + 'a) \<Rightarrow> int \<Rightarrow> int \<Rightarrow> 'a outcome \<times> nat \<times> int list" where
  "withRetry operation maxRetries backoffMs =
     withRetry_loop operation maxRetries backoffMs None 0 []"











section \<open>streamWithTimeout (utils/StreamingUtils.ts)\<close>

text \<open>
  The wrapped producer is an async generator object as an \<^verbatim>\<open>async function*\<close> creates it,
  given by the list of its steps: how many milliseconds the call of \<^verbatim>\<open>next()\<close> takes to
  settle (\<open>None\<close>: it never settles) and what it settles with. After the list, and after a
  step that returns or throws, the generator is completed and \<^verbatim>\<open>next()\<close> resolves with
  \<^verbatim>\<open>{done: true}\<close> at once. The consumer asks for the next item as soon as it has received
  one. Times are milliseconds on one clock; \<open>now\<close> is the time of the consumer's pull.

  \<^item> The race. The timer is armed before \<^verbatim>\<open>next()\<close> is called and fires after
    \<open>max timeoutMs 1\<close> ms (\<^verbatim>\<open>setTimeout\<close> raises a delay below 1 to 1). The step wins
    \<^verbatim>\<open>Promise.race\<close> when it settles strictly earlier.
  \<^item> The cleanup. The \<^verbatim>\<open>finally\<close> block awaits \<^verbatim>\<open>generator.return()\<close>. On a completed
    generator that promise resolves at once. While a call of \<^verbatim>\<open>next()\<close> is still pending,
    the generator is running, and a request made then is put in the generator's queue
    behind the pending one and taken up only when that one has settled (ECMAScript,
    AsyncGenerator.prototype.return and AsyncGeneratorEnqueue). So after a timeout the
    awaited promise settles when the slow step settles, and never if that step never does.

  The result is the log of what happened, in order, and the way the wrapper ends for its
  consumer: it completes, it throws the timeout error \<^verbatim>\<open>Stream timeout after <timeoutMs>ms\<close>,
  it throws the producer's error, or its pending \<^verbatim>\<open>next()\<close> never settles.
\<close>

datatype 'a settle = Yields 'a | Returns | Throws js_error

datatype 'a stream_event =
    TimerArmed nat | TimerCleared nat | TimerFired nat | Yielded nat 'a
  | ReturnCalled nat | ReturnSettled nat

datatype stream_outcome =
    Completed nat | ThrewTimeout nat nat | ThrewProducerError nat js_error | NeverSettles

fun streamWithTimeout ::
  "(nat option \<times> 'a settle) list \<Rightarrow> nat \<Rightarrow> nat \<Rightarrow> 'a stream_event list \<times> stream_outcome" where
  "streamWithTimeout [] timeoutMs now =
     ([TimerArmed now, TimerCleared now, ReturnCalled now, ReturnSettled now], Completed now)"
| "streamWithTimeout ((duration, result) # rest) timeoutMs now =
     (case duration of
        None \<Rightarrow>
          ([TimerArmed now, TimerFired (now + max timeoutMs 1),
            ReturnCalled (now + max timeoutMs 1)], NeverSettles)
      | Some d \<Rightarrow>
          if d < max timeoutMs 1 then
            (case result of
               Yields v \<Rightarrow>
                 (let (events, ending) = streamWithTimeout rest timeoutMs (now + d)
                  in (TimerArmed now # TimerCleared (now + d) # Yielded (now + d) v # events,
                      ending))
             | Returns \<Rightarrow>
                 ([TimerArmed now, TimerCleared (now + d), ReturnCalled (now + d),
                   ReturnSettled (now + d)], Completed (now + d))
             | Throws e \<Rightarrow>
                 ([TimerArmed now, TimerCleared (now + d), ReturnCalled (now + d),
                   ReturnSettled (now + d)], ThrewProducerError (now + d) e))
          else
            ([TimerArmed now, TimerFired (now + max timeoutMs 1),
              ReturnCalled (now + max timeoutMs 1), ReturnSettled (now + d)],
             ThrewTimeout (now + d) timeoutMs))"

definition yielded_items :: "'a stream_event list \<Rightarrow> 'a list" where
  "yielded_items events =
     concat (map (\<lambda>ev. case ev of Yielded t v \<Rightarrow> [v] | _ \<Rightarrow> []) events)"

section \<open>Properties of TokenBuffer\<close>

lemma add_all_snoc: "add_all b (ts @ [t]) = TokenBuffer_add (add_all b ts) t"
  by (simp add: add_all_def)

lemma add_all_maxSize: "tb_maxSize (add_all b ts) = tb_maxSize b"
  by (induction ts rule: rev_induct) (simp_all add: add_all_def TokenBuffer_add_def Let_def)

lemma tl_drop_snoc:
  assumes "nat n \<le> length ts"
  shows "tl (drop (length ts - nat n) ts @ [t]) = drop (length (ts @ [t]) - nat n) (ts @ [t])"
proof (cases "nat n = 0")
  case True
  then show ?thesis by simp
next
  case False
  with assms have pos: "0 < nat n" by simp
  then have ne: "drop (length ts - nat n) ts \<noteq> []" using assms by simp
  have k: "Suc (length ts - nat n) = Suc (length ts) - nat n" using assms by linarith
  have "tl (drop (length ts - nat n) ts @ [t]) = tl (drop (length ts - nat n) ts) @ [t]"
    using ne by (cases "drop (length ts - nat n) ts") auto
  also have "tl (drop (length ts - nat n) ts) = drop (Suc (length ts - nat n)) ts"
    by (simp add: drop_Suc tl_drop)
  also have "drop (Suc (length ts - nat n)) ts @ [t] = drop (Suc (length ts - nat n)) (ts @ [t])"
    using assms pos by simp
  finally show ?thesis using k by simp
qed

lemma add_all_buffer:
  "buffer (add_all (TokenBuffer_new n) ts) = drop (length ts - nat n) ts"
proof (induction ts rule: rev_induct)
  case Nil
  show ?case by (simp add: add_all_def TokenBuffer_new_def)
next
  case (snoc t ts)
  have m: "tb_maxSize (add_all (TokenBuffer_new n) ts) = n"
    by (simp add: add_all_maxSize TokenBuffer_new_def)
  show ?case
  proof (cases "int (length ts) + 1 > n")
    case True
    then have "buffer (add_all (TokenBuffer_new n) (ts @ [t]))
                 = tl (drop (length ts - nat n) ts @ [t])"
      using snoc m by (simp add: add_all_snoc TokenBuffer_add_def Let_def)
    moreover have "nat n \<le> length ts" using True by linarith
    ultimately show ?thesis by (simp only: tl_drop_snoc)
  next
    case False
    then show ?thesis using snoc m
      by (simp add: add_all_snoc TokenBuffer_add_def Let_def)
  qed
qed

lemma add_length:
  "length (buffer (TokenBuffer_add b t)) =
     (if int (length (buffer b)) + 1 > tb_maxSize b then length (buffer b)
      else length (buffer b) + 1)"
  by (simp add: TokenBuffer_add_def Let_def)

text \<open>
  C8. TokenBuffer evicts strictly first-in first-out, one token per add beyond capacity:
  an add that would exceed the capacity leaves the length unchanged and drops the oldest
  token, so after adding the tokens \<open>ts\<close> to a fresh buffer of capacity \<open>n\<close> the buffer holds
  the last \<open>n\<close> of them in arrival order. With capacity 5 and tokens A..G, \<open>getLastN(5)\<close> is
  [C,D,E,F,G]; with capacity 3 and tokens A..D, \<open>getText()\<close> is "BCD".
\<close>

theorem TokenBuffer_fifo:
  "buffer (add_all (TokenBuffer_new n) ts) = drop (length ts - nat n) ts
   \<and> length (buffer (TokenBuffer_add b t)) =
       (if int (length (buffer b)) + 1 > tb_maxSize b then length (buffer b)
        else length (buffer b) + 1)
   \<and> buffer (TokenBuffer_add b t) =
       (if int (length (buffer b)) + 1 > tb_maxSize b then tl (buffer b @ [t])
        else buffer b @ [t])
   \<and> TokenBuffer_getLastN
       (add_all (TokenBuffer_new 5) [''A'', ''B'', ''C'', ''D'', ''E'', ''F'', ''G'']) 5
       = [''C'', ''D'', ''E'', ''F'', ''G'']
   \<and> TokenBuffer_getText (add_all (TokenBuffer_new 3) [''A'', ''B'', ''C'', ''D'']) = ''BCD''"
proof -
  have a: "TokenBuffer_getLastN
       (add_all (TokenBuffer_new 5) [''A'', ''B'', ''C'', ''D'', ''E'', ''F'', ''G'']) 5
       = [''C'', ''D'', ''E'', ''F'', ''G'']"
    by (simp add: TokenBuffer_getLastN_def Array_slice_def add_all_buffer)
  have b: "TokenBuffer_getText (add_all (TokenBuffer_new 3) [''A'', ''B'', ''C'', ''D'']) = ''BCD''"
    by (simp add: TokenBuffer_getText_def add_all_buffer)
  have c: "buffer (TokenBuffer_add b t) =
       (if int (length (buffer b)) + 1 > tb_maxSize b then tl (buffer b @ [t])
        else buffer b @ [t])"
    by (simp add: TokenBuffer_add_def Let_def)
  show ?thesis using a b c add_all_buffer add_length by blast
qed

text \<open>
  C10. \<open>getLastN(0)\<close> returns the whole retained token list, earliest first, because
  \<open>slice(-0)\<close> is \<open>slice(0)\<close>; for every \<open>n > 0\<close> it returns the last \<open>min(n, length)\<close>
  retained tokens.
\<close>

theorem getLastN_zero_and_positive:
  "TokenBuffer_getLastN b 0 = buffer b
   \<and> (0 < n \<longrightarrow>
        TokenBuffer_getLastN b n
          = drop (length (buffer b) - min (nat n) (length (buffer b))) (buffer b)
        \<and> length (TokenBuffer_getLastN b n) = min (nat n) (length (buffer b))
        \<and> suffix (TokenBuffer_getLastN b n) (buffer b))"
proof -
  have z: "TokenBuffer_getLastN b 0 = buffer b"
    by (simp add: TokenBuffer_getLastN_def Array_slice_def)
  have p: "TokenBuffer_getLastN b n
          = drop (length (buffer b) - min (nat n) (length (buffer b))) (buffer b)" if "0 < n"
    using that
    by (auto simp add: TokenBuffer_getLastN_def Array_slice_def Let_def max_def min_def
          intro: arg_cong[where f="\<lambda>k. drop k (buffer b)"])
  have l: "length (TokenBuffer_getLastN b n) = min (nat n) (length (buffer b))" if "0 < n"
    using p[OF that] by simp
  have s: "suffix (TokenBuffer_getLastN b n) (buffer b)" if "0 < n"
    using p[OF that] by (simp add: suffix_drop)
  show ?thesis using z p l s by blast
qed

theorem getLastN_zero_and_positive_witness:
  "TokenBuffer_getLastN (add_all (TokenBuffer_new 3) [''A'', ''B'', ''C'', ''D'']) 0
     = [''B'', ''C'', ''D'']
   \<and> (0::int) < 2
   \<and> TokenBuffer_getLastN (add_all (TokenBuffer_new 3) [''A'', ''B'', ''C'', ''D'']) 2
     = [''C'', ''D'']"
  using getLastN_zero_and_positive
          [of "add_all (TokenBuffer_new 3) [''A'', ''B'', ''C'', ''D'']" 2]
  by (simp add: add_all_buffer)

section \<open>Properties of BackpressureHandler\<close>

lemma bp_step_maxPending: "maxPending (bp_step h call) = maxPending h"
  by (cases call) (simp_all add: acquire_def release_def release_decremented_def Let_def split: list.splits)

lemma bp_step_bound: "pending h \<le> maxPending h \<Longrightarrow> pending (bp_step h call) \<le> maxPending h"
  by (cases call) (simp_all add: acquire_def release_def release_decremented_def Let_def split: list.splits)

lemma bp_run_bound:
  "pending h \<le> maxPending h \<Longrightarrow>
     pending (bp_run h calls) \<le> maxPending h \<and> maxPending (bp_run h calls) = maxPending h"
proof (induction calls arbitrary: h)
  case Nil
  then show ?case by (simp add: bp_run_def)
next
  case (Cons call calls)
  have "pending (bp_step h call) \<le> maxPending (bp_step h call)"
    using Cons.prems by (simp add: bp_step_bound bp_step_maxPending)
  from Cons.IH[OF this] show ?case by (simp add: bp_run_def bp_step_maxPending)
qed

lemma release_fifo:
  "resolved (release h) = resolved h @ take 1 (waitingResolvers h)
   \<and> waitingResolvers (release h) = drop 1 (waitingResolvers h)"
  by (simp add: release_def release_decremented_def Let_def split: list.splits)

text \<open>
  C5. With \<open>maxPending = 2\<close>, three \<open>acquire()\<close> calls grant the first two at once and
  leave the third suspended; one \<open>release()\<close> then resolves exactly one more acquire, the
  oldest waiter; and the pending count never exceeds 2, after any sequence of calls and also
  between the two statements of \<open>release\<close>.
\<close>

theorem backpressure_fair:
  "resolved (bp_run (BackpressureHandler_new 2) [Acquire 1, Acquire 2, Acquire 3]) = [1, 2]
   \<and> waitingResolvers (bp_run (BackpressureHandler_new 2) [Acquire 1, Acquire 2, Acquire 3]) = [3]
   \<and> pendingCount (bp_run (BackpressureHandler_new 2) [Acquire 1, Acquire 2, Acquire 3]) = 2
   \<and> resolved (bp_run (BackpressureHandler_new 2) [Acquire 1, Acquire 2, Acquire 3, Release])
       = [1, 2, 3]
   \<and> waitingCount (bp_run (BackpressureHandler_new 2) [Acquire 1, Acquire 2, Acquire 3, Release]) = 0
   \<and> pendingCount (bp_run (BackpressureHandler_new 2) [Acquire 1, Acquire 2, Acquire 3, Release]) = 2
   \<and> resolved (bp_run (BackpressureHandler_new 2)
                 [Acquire 1, Acquire 2, Acquire 3, Acquire 4, Release]) = [1, 2, 3]
   \<and> waitingResolvers (bp_run (BackpressureHandler_new 2)
                 [Acquire 1, Acquire 2, Acquire 3, Acquire 4, Release]) = [4]
   \<and> resolved (release h) = resolved h @ take 1 (waitingResolvers h)
   \<and> waitingResolvers (release h) = drop 1 (waitingResolvers h)
   \<and> pendingCount (bp_run (BackpressureHandler_new 2) calls) \<le> 2
   \<and> pendingCount (release_decremented (bp_run (BackpressureHandler_new 2) calls)) \<le> 2"
proof -
  have run: "pending (bp_run (BackpressureHandler_new 2) calls) \<le> 2"
    using bp_run_bound[of "BackpressureHandler_new 2" calls]
    by (simp add: BackpressureHandler_new_def)
  have conc: "bp_run (BackpressureHandler_new 2) [Acquire 1, Acquire 2, Acquire 3]
      = \<lparr>pending = 2, maxPending = 2, waitingResolvers = [3], resolved = [1, 2]\<rparr>"
    "bp_run (BackpressureHandler_new 2) [Acquire 1, Acquire 2, Acquire 3, Release]
      = \<lparr>pending = 2, maxPending = 2, waitingResolvers = [], resolved = [1, 2, 3]\<rparr>"
    "bp_run (BackpressureHandler_new 2) [Acquire 1, Acquire 2, Acquire 3, Acquire 4, Release]
      = \<lparr>pending = 2, maxPending = 2, waitingResolvers = [4], resolved = [1, 2, 3]\<rparr>"
    by (simp_all add: bp_run_def BackpressureHandler_new_def acquire_def release_def
          release_decremented_def)
  show ?thesis
    unfolding conc pendingCount_def waitingCount_def
    using run release_fifo[of h]
    by (simp add: release_decremented_def)
qed

section \<open>Properties of ErrorHandler.withRetry\<close>





lemma withRetry_not_retryable:
  assumes "0 \<le> maxRetries" "operation 0 = Inl e" "\<not> isRetryable e"
  shows "withRetry operation maxRetries backoffMs = (Threw e, 1, [])"
  unfolding withRetry_def using assms by (subst withRetry_loop.simps) simp

lemma isRetryable_examples:
  "isRetryable (Error ''Temporary failure'')"
  "isRetryable (AIError NETWORK_ERROR ''down'' True)"
  "\<not> isRetryable (Error ''Always fails'')"
  "\<not> isRetryable (AIError MODEL_NOT_FOUND ''Model not found: m'' True)"
  by code_simp+



text \<open>
  The retry runs of the repository's own test scripts use plain errors whose messages hold
  none of the four words of \<open>isRetryable\<close>; each is thrown after one call.
\<close>

lemma withRetry_plain_errors_of_the_tests:
  "withRetry (\<lambda>k. (Inl (Error ''Always fails'') :: js_error + nat)) 2 10
     = (Threw (Error ''Always fails''), 1, [])"
  "withRetry (\<lambda>k. if k < 1 then Inl (Error ''First attempt fails'') else Inr ''success'') 3 10
     = (Threw (Error ''First attempt fails''), 1, [])"
  "withRetry (\<lambda>k. if k < 2 then Inl (Error ''Attempt 1 failed'') else Inr ''Success!'') 5 10
     = (Threw (Error ''Attempt 1 failed''), 1, [])"
proof -
  have n: "\<not> isRetryable (Error ''Always fails'')" "\<not> isRetryable (Error ''First attempt fails'')"
    "\<not> isRetryable (Error ''Attempt 1 failed'')"
    by code_simp+
  show "withRetry (\<lambda>k. (Inl (Error ''Always fails'') :: js_error + nat)) 2 10
     = (Threw (Error ''Always fails''), 1, [])"
    by (rule withRetry_not_retryable) (simp_all add: n del: isRetryable.simps)
  show "withRetry (\<lambda>k. if k < 1 then Inl (Error ''First attempt fails'') else Inr ''success'') 3 10
     = (Threw (Error ''First attempt fails''), 1, [])"
    by (rule withRetry_not_retryable) (simp_all add: n del: isRetryable.simps)
  show "withRetry (\<lambda>k. if k < 2 then Inl (Error ''Attempt 1 failed'') else Inr ''Success!'') 5 10
     = (Threw (Error ''Attempt 1 failed''), 1, [])"
    by (rule withRetry_not_retryable) (simp_all add: n del: isRetryable.simps)
qed




section \<open>Properties of ModelRegistry.selectBestAdapter\<close>

lemma adapter_score_eq: "adapter_score a modelInfo hardware = spec_score a modelInfo hardware"
  by (cases hardware) (simp_all add: adapter_score_def spec_score_def Let_def)

lemma collect_candidates_eq:
  "collect_candidates as modelPath modelInfo hardware
     = map (\<lambda>a. (a, adapter_score a modelInfo hardware))
         (filter (\<lambda>a. canHandle a modelPath modelInfo) as)"
  by (induction as) simp_all

text \<open>The head of a stable ascending sort is the first element whose key is minimal.\<close>

lemma hd_sort_key_first_min:
  "xs \<noteq> [] \<Longrightarrow>
     find (\<lambda>z. \<forall>y \<in> set xs. f z \<le> f y) xs = Some (hd (sort_key f xs))"
proof (induction xs)
  case Nil
  then show ?case by simp
next
  case (Cons x xs)
  show ?case
  proof (cases "xs = []")
    case True
    then show ?thesis by simp
  next
    case False
    define m where "m = hd (sort_key f xs)"
    have ne: "sort_key f xs \<noteq> []" using False by (metis length_0_conv length_sort)
    then obtain rest where srt: "sort_key f xs = m # rest"
      unfolding m_def by (cases "sort_key f xs") auto
    from Cons.IH[OF False] have "find (\<lambda>z. \<forall>y \<in> set xs. f z \<le> f y) xs = Some m"
      by (simp add: m_def)
    then obtain i where i: "i < length xs" "\<forall>y \<in> set xs. f (xs ! i) \<le> f y" "m = xs ! i"
      "\<forall>j<i. \<not> (\<forall>y \<in> set xs. f (xs ! j) \<le> f y)"
      unfolding find_Some_iff by blast
    have m_in: "m \<in> set xs" using i(1,3) by simp
    have m_min: "\<forall>y \<in> set xs. f m \<le> f y" using i(2,3) by simp
    show ?thesis
    proof (cases "f x \<le> f m")
      case True
      then have "hd (sort_key f (x # xs)) = x" using srt by simp
      moreover have "\<forall>y \<in> set (x # xs). f x \<le> f y" using True m_min by auto
      ultimately show ?thesis by simp
    next
      case lt: False
      then have h: "hd (sort_key f (x # xs)) = m" using srt by simp
      have nx: "\<not> (\<forall>y \<in> set (x # xs). f x \<le> f y)" using lt m_in by auto
      have fm: "find (\<lambda>z. \<forall>y \<in> set (x # xs). f z \<le> f y) xs = Some m"
        unfolding find_Some_iff
      proof (intro exI[of _ i] conjI)
        show "i < length xs" by (rule i(1))
        show "\<forall>y \<in> set (x # xs). f (xs ! i) \<le> f y" using i(2,3) lt by auto
        show "m = xs ! i" by (rule i(3))
        show "\<forall>j<i. \<not> (\<forall>y \<in> set (x # xs). f (xs ! j) \<le> f y)" using i(4) by auto
      qed
      have "find (\<lambda>z. \<forall>y \<in> set (x # xs). f z \<le> f y) (x # xs)
              = find (\<lambda>z. \<forall>y \<in> set (x # xs). f z \<le> f y) xs"
        using nx by (simp only: find.simps if_False)
      with fm h show ?thesis by (simp only:)
    qed
  qed
qed

lemma find_map_pair:
  "find P (map (\<lambda>a. (a, g a)) xs) = map_option (\<lambda>a. (a, g a)) (find (\<lambda>a. P (a, g a)) xs)"
  by (induction xs) simp_all

lemma find_filter:
  "find Q (filter P xs) = find (\<lambda>x. P x \<and> Q x) xs"
  by (induction xs) simp_all

lemma selectBestAdapter_eq_spec:
  "selectBestAdapter reg modelPath modelInfo hardware
     = spec_select (map snd (adapters reg)) modelPath modelInfo hardware"
proof -
  define able where "able = filter (\<lambda>a. canHandle a modelPath modelInfo) (map snd (adapters reg))"
  define cands where "cands = map (\<lambda>a. (a, adapter_score a modelInfo hardware)) able"
  have c: "collect_candidates (map snd (adapters reg)) modelPath modelInfo hardware = cands"
    by (simp add: collect_candidates_eq cands_def able_def)
  show ?thesis
  proof (cases "able = []")
    case True
    then have "\<forall>a \<in> set (map snd (adapters reg)). \<not> canHandle a modelPath modelInfo"
      unfolding able_def by (simp add: filter_empty_conv)
    then have "spec_select (map snd (adapters reg)) modelPath modelInfo hardware = None"
      unfolding spec_select_def find_None_iff by blast
    then show ?thesis
      using c True by (simp add: selectBestAdapter_def cands_def)
  next
    case False
    then have ne: "cands \<noteq> []" by (simp add: cands_def)
    then have sne: "sort_key (\<lambda>c. - snd c) cands \<noteq> []" by (metis length_0_conv length_sort)
    have f1: "find (\<lambda>z. \<forall>y \<in> set cands. - snd z \<le> - snd y) cands
            = Some (hd (sort_key (\<lambda>c. - snd c) cands))"
      by (rule hd_sort_key_first_min[OF ne])
    have f2: "map_option fst (find (\<lambda>z. \<forall>y \<in> set cands. - snd z \<le> - snd y) cands)
            = find (\<lambda>a. \<forall>b \<in> set able. spec_score b modelInfo hardware
                                          \<le> spec_score a modelInfo hardware) able"
      by (simp add: cands_def find_map_pair option.map_comp comp_def adapter_score_eq
            option.map_ident)
    have f3: "selectBestAdapter reg modelPath modelInfo hardware
            = Some (fst (hd (sort_key (\<lambda>c. - snd c) cands)))"
      using ne sne c by (cases "sort_key (\<lambda>c. - snd c) cands")
        (simp_all add: selectBestAdapter_def)
    have f4: "find (\<lambda>a. \<forall>b \<in> set able. spec_score b modelInfo hardware
                                          \<le> spec_score a modelInfo hardware) able
            = spec_select (map snd (adapters reg)) modelPath modelInfo hardware"
      unfolding spec_select_def able_def find_filter
      by (rule find_cong) auto
    from f1 f2 f3 f4 show ?thesis by simp
  qed
qed

lemma Map_set_fresh: "k \<notin> fst ` set m \<Longrightarrow> Map_set m k v = m @ [(k, v)]"
  by (induction m) auto

lemma register_all:
  "distinct (map fst (adapters reg) @ map format as) \<Longrightarrow>
     adapters (foldl registerAdapter reg as) = adapters reg @ map (\<lambda>a. (format a, a)) as"
proof (induction as arbitrary: reg)
  case Nil
  then show ?case by simp
next
  case (Cons a as)
  have fresh: "format a \<notin> fst ` set (adapters reg)" using Cons.prems by auto
  then have step: "adapters (registerAdapter reg a) = adapters reg @ [(format a, a)]"
    by (simp add: registerAdapter_def Map_set_fresh)
  have "distinct (map fst (adapters (registerAdapter reg a)) @ map format as)"
    using Cons.prems by (auto simp: step)
  from Cons.IH[OF this] show ?case by (simp add: step)
qed

lemma select_None_iff:
  "selectBestAdapter reg modelPath modelInfo hardware = None
     \<longleftrightarrow> list_all (\<lambda>a. \<not> canHandle a modelPath modelInfo) (map snd (adapters reg))"
proof -
  let ?as = "map snd (adapters reg)"
  let ?sc = "\<lambda>a. spec_score a modelInfo hardware"
  have "spec_select ?as modelPath modelInfo hardware \<noteq> None"
    if ex: "\<exists>a \<in> set ?as. canHandle a modelPath modelInfo"
  proof -
    define able where "able = filter (\<lambda>a. canHandle a modelPath modelInfo) ?as"
    have ne: "able \<noteq> []" using ex by (auto simp: able_def filter_empty_conv)
    then have "find (\<lambda>z. \<forall>y \<in> set able. - ?sc z \<le> - ?sc y) able \<noteq> None"
      using hd_sort_key_first_min[OF ne, of "\<lambda>a. - ?sc a"] by simp
    then obtain a where "a \<in> set able" "\<forall>y \<in> set able. ?sc y \<le> ?sc a"
      unfolding find_None_iff by auto
    then have "a \<in> set ?as \<and> canHandle a modelPath modelInfo
        \<and> (\<forall>b \<in> set ?as. canHandle b modelPath modelInfo \<longrightarrow> ?sc b \<le> ?sc a)"
      by (auto simp: able_def)
    then show ?thesis unfolding spec_select_def find_None_iff by blast
  qed
  moreover have "spec_select ?as modelPath modelInfo hardware = None"
    if "\<not> (\<exists>a \<in> set ?as. canHandle a modelPath modelInfo)"
    using that unfolding spec_select_def find_None_iff by blast
  ultimately show ?thesis
    unfolding selectBestAdapter_eq_spec list_all_iff by blast
qed

lemma select_Some_first_best:
  assumes "selectBestAdapter reg modelPath modelInfo hardware = Some best"
  shows "\<exists>n < length (adapters reg).
           snd (adapters reg ! n) = best \<and> canHandle best modelPath modelInfo
         \<and> (\<forall>j < length (adapters reg). canHandle (snd (adapters reg ! j)) modelPath modelInfo
              \<longrightarrow> spec_score (snd (adapters reg ! j)) modelInfo hardware
                    \<le> spec_score best modelInfo hardware)
         \<and> (\<forall>j < n. canHandle (snd (adapters reg ! j)) modelPath modelInfo
              \<longrightarrow> spec_score (snd (adapters reg ! j)) modelInfo hardware
                    < spec_score best modelInfo hardware)"
proof -
  let ?as = "map snd (adapters reg)"
  let ?sc = "\<lambda>a. spec_score a modelInfo hardware"
  let ?P = "\<lambda>a. canHandle a modelPath modelInfo
               \<and> (\<forall>b \<in> set ?as. canHandle b modelPath modelInfo \<longrightarrow> ?sc b \<le> ?sc a)"
  from assms have "find ?P ?as = Some best"
    by (simp add: selectBestAdapter_eq_spec spec_select_def)
  then obtain n where n: "n < length ?as" "?P (?as ! n)" "best = ?as ! n"
      "\<forall>j<n. \<not> ?P (?as ! j)"
    unfolding find_Some_iff by blast
  have all: "?sc (?as ! j) \<le> ?sc best"
    if "j < length ?as" "canHandle (?as ! j) modelPath modelInfo" for j
    using n(2,3) that by (metis nth_mem)
  have before: "?sc (?as ! j) < ?sc best"
    if "j < n" "canHandle (?as ! j) modelPath modelInfo" for j
  proof -
    from n(4) that obtain b where b: "b \<in> set ?as" "canHandle b modelPath modelInfo"
        "\<not> ?sc b \<le> ?sc (?as ! j)"
      by blast
    from b(1,2) n(2,3) have "?sc b \<le> ?sc best" by blast
    with b(3) show ?thesis by linarith
  qed
  show ?thesis
  proof (intro exI[of _ n] conjI allI impI)
    show "n < length (adapters reg)" using n(1) by simp
    show "snd (adapters reg ! n) = best" using n(1,3) by simp
    show "canHandle best modelPath modelInfo" using n(2,3) by simp
  next
    fix j assume "j < length (adapters reg)"
      "canHandle (snd (adapters reg ! j)) modelPath modelInfo"
    then show "?sc (snd (adapters reg ! j)) \<le> ?sc best" using all[of j] by simp
  next
    fix j assume "j < n" "canHandle (snd (adapters reg ! j)) modelPath modelInfo"
    then show "?sc (snd (adapters reg ! j)) < ?sc best" using before[of j] n(1) by simp
  qed
qed

lemma Map_set_keys:
  "map fst (Map_set m k v) = (if k \<in> set (map fst m) then map fst m else map fst m @ [k])"
  by (induction m) force+

text \<open>
  C4. \<open>selectBestAdapter\<close> considers only the adapters whose \<open>canHandle\<close> holds; a candidate's
  score is +100 for a matching format tag, +50 for GPU hardware with declared GPU support,
  +20 for streaming support and +10 for at least one quantization level; the result is the
  first adapter, in the iteration order of the registry, that reaches the highest score
  among the candidates (every candidate before it scores strictly less); it is null exactly
  when no adapter can handle the input. The iteration order is the order in which the
  format tags were first registered: registering a new format appends, registering a
  format again keeps its place, so adapters of distinct formats iterate in registration
  order. The result is a function of the registry and the three arguments only, so repeated
  calls return the same adapter.
\<close>

theorem selectBestAdapter_first_highest:
  "adapter_score a modelInfo hardware = spec_score a modelInfo hardware
   \<and> selectBestAdapter reg modelPath modelInfo hardware
       = spec_select (map snd (adapters reg)) modelPath modelInfo hardware
   \<and> (selectBestAdapter reg modelPath modelInfo hardware = None
        \<longleftrightarrow> list_all (\<lambda>a. \<not> canHandle a modelPath modelInfo) (map snd (adapters reg)))
   \<and> (selectBestAdapter reg modelPath modelInfo hardware = Some best \<longrightarrow>
        (\<exists>n < length (adapters reg).
           snd (adapters reg ! n) = best \<and> canHandle best modelPath modelInfo
         \<and> (\<forall>j < length (adapters reg). canHandle (snd (adapters reg ! j)) modelPath modelInfo
              \<longrightarrow> spec_score (snd (adapters reg ! j)) modelInfo hardware
                    \<le> spec_score best modelInfo hardware)
         \<and> (\<forall>j < n. canHandle (snd (adapters reg ! j)) modelPath modelInfo
              \<longrightarrow> spec_score (snd (adapters reg ! j)) modelInfo hardware
                    < spec_score best modelInfo hardware)))
   \<and> map fst (adapters (registerAdapter reg a))
       = (if format a \<in> set (map fst (adapters reg)) then map fst (adapters reg)
          else map fst (adapters reg) @ [format a])
   \<and> (distinct (map format as) \<longrightarrow>
        map snd (adapters (foldl registerAdapter ModelRegistry_new as)) = as)"
proof -
  have slot: "map fst (adapters (registerAdapter reg a))
       = (if format a \<in> set (map fst (adapters reg)) then map fst (adapters reg)
          else map fst (adapters reg) @ [format a])"
    by (simp add: registerAdapter_def Map_set_keys del: set_map)
  have reg_order: "map snd (adapters (foldl registerAdapter ModelRegistry_new as)) = as"
    if "distinct (map format as)"
    using register_all[of ModelRegistry_new as] that
    by (simp add: ModelRegistry_new_def comp_def)
  show ?thesis
    using adapter_score_eq[of a modelInfo hardware]
      selectBestAdapter_eq_spec[of reg modelPath modelInfo hardware]
      select_None_iff[of reg modelPath modelInfo hardware]
      select_Some_first_best[of reg modelPath modelInfo hardware best]
      reg_order slot
    by blast
qed

theorem selectBestAdapter_first_highest_witness:
  "distinct (map format [adapter_beta, adapter_alpha, adapter_gamma])
   \<and> map snd (adapters (foldl registerAdapter ModelRegistry_new
                          [adapter_beta, adapter_alpha, adapter_gamma]))
       = [adapter_beta, adapter_alpha, adapter_gamma]
   \<and> adapter_score adapter_alpha
        (Some \<lparr>info_name = ''m'', info_format = gguf, info_size = 1\<rparr>) (Some \<lparr>hasGPU = True\<rparr>)
       = 180
   \<and> selectBestAdapter
        (foldl registerAdapter ModelRegistry_new [adapter_beta, adapter_alpha, adapter_gamma])
        ''model.gguf'' (Some \<lparr>info_name = ''m'', info_format = gguf, info_size = 1\<rparr>)
        (Some \<lparr>hasGPU = True\<rparr>)
       = Some adapter_alpha
   \<and> selectBestAdapter
        (foldl registerAdapter ModelRegistry_new [adapter_beta, adapter_alpha, adapter_gamma])
        ''model.bin'' None None
       = Some adapter_beta
   \<and> selectBestAdapter (foldl registerAdapter ModelRegistry_new [adapter_alpha])
        ''model.bin'' None None
       = None
   \<and> (\<exists>n < length (adapters (foldl registerAdapter ModelRegistry_new
                                [adapter_beta, adapter_alpha, adapter_gamma])).
         snd (adapters (foldl registerAdapter ModelRegistry_new
                          [adapter_beta, adapter_alpha, adapter_gamma]) ! n) = adapter_alpha)"
proof -
  let ?as = "[adapter_beta, adapter_alpha, adapter_gamma]"
  let ?info = "Some \<lparr>info_name = ''m'', info_format = gguf, info_size = 1\<rparr>"
  let ?hw = "Some \<lparr>hasGPU = True\<rparr>"
  have d: "distinct (map format ?as)"
    by (simp add: adapter_alpha_def adapter_beta_def adapter_gamma_def)
  have d1: "distinct (map format [adapter_alpha])" by simp
  note T = selectBestAdapter_first_highest
  have o: "map snd (adapters (foldl registerAdapter ModelRegistry_new ?as)) = ?as"
    using T[where as = ?as] d by blast
  have o1: "map snd (adapters (foldl registerAdapter ModelRegistry_new [adapter_alpha]))
              = [adapter_alpha]"
    using T[where as = "[adapter_alpha]"] d1 by blast
  have sc: "spec_score adapter_alpha ?info ?hw = 180" "spec_score adapter_beta ?info ?hw = 0"
    "spec_score adapter_gamma ?info ?hw = 0"
    "spec_score adapter_alpha None None = 30" "spec_score adapter_beta None None = 0"
    "spec_score adapter_gamma None None = 0"
    by (simp_all add: spec_score_def adapter_alpha_def adapter_beta_def adapter_gamma_def)
  have ch: "canHandle adapter_alpha ''model.gguf'' ?info" "canHandle adapter_beta p i"
    "canHandle adapter_gamma p i" "\<not> canHandle adapter_alpha ''model.bin'' None" for p i
    by (simp_all add: adapter_alpha_def adapter_beta_def adapter_gamma_def)
  note E = T[THEN conjunct2, THEN conjunct1]
  have s1: "selectBestAdapter (foldl registerAdapter ModelRegistry_new ?as) ''model.gguf''
              ?info ?hw = Some adapter_alpha"
    unfolding E o by (simp add: spec_select_def sc ch)
  have s2: "selectBestAdapter (foldl registerAdapter ModelRegistry_new ?as) ''model.bin''
              None None = Some adapter_beta"
    unfolding E o by (simp add: spec_select_def sc ch)
  have s3: "selectBestAdapter (foldl registerAdapter ModelRegistry_new [adapter_alpha])
              ''model.bin'' None None = None"
    unfolding E o1 by (simp add: spec_select_def ch)
  have s4: "adapter_score adapter_alpha ?info ?hw = 180"
    unfolding T[THEN conjunct1] by (rule sc(1))
  have s5: "\<exists>n < length (adapters (foldl registerAdapter ModelRegistry_new ?as)).
              snd (adapters (foldl registerAdapter ModelRegistry_new ?as) ! n) = adapter_alpha"
    using T[where reg = "foldl registerAdapter ModelRegistry_new ?as"
              and modelPath = "''model.gguf''" and modelInfo = ?info and hardware = ?hw
              and best = adapter_alpha] s1
    by blast
  show ?thesis using d o s1 s2 s3 s4 s5 by blast
qed

section \<open>Properties of LRUCache\<close>

subsection \<open>The insertion-ordered map\<close>

lemma Map_delete_keys: "map fst (Map_delete m k) = filter (\<lambda>k'. k' \<noteq> k) (map fst m)"
  by (induction m) (auto simp: Map_delete_def)

lemma Map_delete_subset: "set (Map_delete m k) \<subseteq> set m"
  by (auto simp: Map_delete_def)

lemma Map_delete_absent: "k \<notin> fst ` set m \<Longrightarrow> Map_delete m k = m"
  by (induction m) (auto simp: Map_delete_def)

lemma Map_delete_length:
  "distinct (map fst m) \<Longrightarrow> map_of m k = Some v \<Longrightarrow> Suc (length (Map_delete m k)) = length m"
proof (induction m)
  case Nil
  then show ?case by simp
next
  case (Cons kv m)
  show ?case
  proof (cases "fst kv = k")
    case True
    then have "k \<notin> fst ` set m" using Cons.prems(1) by auto
    then have "Map_delete m k = m" by (rule Map_delete_absent)
    with True show ?thesis by (simp add: Map_delete_def)
  next
    case False
    with Cons show ?thesis by (cases kv) (auto simp: Map_delete_def)
  qed
qed

lemma Map_delete_sum:
  "distinct (map fst m) \<Longrightarrow> map_of m k = Some v \<Longrightarrow>
     sum_list (map g (Map_delete m k)) = sum_list (map g m) - (g (k, v) :: int)"
proof (induction m)
  case Nil
  then show ?case by simp
next
  case (Cons kv m)
  show ?case
  proof (cases "fst kv = k")
    case True
    then have "k \<notin> fst ` set m" using Cons.prems(1) by auto
    then have "Map_delete m k = m" by (rule Map_delete_absent)
    moreover have "kv = (k, v)" using True Cons.prems(2) by (cases kv) auto
    ultimately show ?thesis by (simp add: Map_delete_def)
  next
    case False
    with Cons show ?thesis by (cases kv) (auto simp: Map_delete_def)
  qed
qed

lemma Map_set_absent: "map_of m k = None \<Longrightarrow> Map_set m k v = m @ [(k, v)]"
  by (induction m) (auto split: if_splits)

lemma Map_set_keys_present:
  "map_of m k = Some v' \<Longrightarrow> map fst (Map_set m k v) = map fst m"
  by (induction m) (auto split: if_splits)

lemma Map_set_sum_present:
  "distinct (map fst m) \<Longrightarrow> map_of m k = Some v' \<Longrightarrow>
     sum_list (map g (Map_set m k v)) = sum_list (map g m) - g (k, v') + (g (k, v) :: int)"
  by (induction m) (auto split: if_splits)

lemma Map_set_subset: "set (Map_set m k v) \<subseteq> insert (k, v) (set m)"
  by (induction m) (auto split: if_splits)

lemma Map_set_mem: "(k, v) \<in> set (Map_set m k v)"
  by (induction m) auto

subsection \<open>delete, evictLRU and the eviction loop keep the bookkeeping exact\<close>

lemma map_of_cache_mem: "map_of m k = Some v \<Longrightarrow> (k, v) \<in> set m"
  by (rule map_of_SomeD)

lemma delete_absent: "Map_get (cache c) k = None \<Longrightarrow> LRUCache_delete c k = c"
  by (simp add: LRUCache_delete_def)

lemma delete_present:
  "Map_get (cache c) k = Some (model, entry) \<Longrightarrow>
     LRUCache_delete c k =
       c\<lparr>currentSize := currentSize c - entry_size entry,
         unloaded := unloaded c @ [model_id model],
         cache := Map_delete (cache c) k\<rparr>"
  by (simp add: LRUCache_delete_def)

lemma delete_maxSize: "maxSize (LRUCache_delete c k) = maxSize c"
  by (simp add: LRUCache_delete_def split: option.splits)

lemma delete_inv:
  assumes "cache_inv c"
  shows "cache_inv (LRUCache_delete c k)"
proof (cases "Map_get (cache c) k")
  case None
  then show ?thesis using assms by (simp add: delete_absent)
next
  case (Some me)
  obtain model entry where me: "me = (model, entry)" by (cases me)
  have d: "distinct (map fst (cache c))" using assms by (simp add: cache_inv_def cache_keys_def)
  have m: "map_of (cache c) k = Some (model, entry)" using Some me by (simp add: Map_get_def)
  have s: "sum_list (map (\<lambda>kv. entry_size (snd (snd kv))) (Map_delete (cache c) k))
             = sum_list (map (\<lambda>kv. entry_size (snd (snd kv))) (cache c)) - entry_size entry"
    using Map_delete_sum[OF d m, of "\<lambda>kv. entry_size (snd (snd kv))"] by simp
  have p: "list_all (\<lambda>s. 0 \<le> s)
             (map (\<lambda>kv. entry_size (snd (snd kv))) (Map_delete (cache c) k))"
    using assms Map_delete_subset[of "cache c" k]
    by (auto simp: cache_inv_def entry_sizes_def list_all_iff)
  have k: "distinct (map fst (Map_delete (cache c) k))"
    using d by (simp add: Map_delete_keys)
  show ?thesis
    using assms s p k Some me
    by (simp add: delete_present cache_inv_def cache_keys_def entry_sizes_def)
qed

lemma oldest_scan_key:
  "fst (oldest_scan m (ok, ot)) = ok \<or> (\<exists>k. fst (oldest_scan m (ok, ot)) = Some k \<and> k \<in> fst ` set m)"
proof (induction m arbitrary: ok ot)
  case Nil
  then show ?case by simp
next
  case (Cons kv m)
  obtain k cd where kv: "kv = (k, cd)" by (cases kv)
  show ?case
    using Cons.IH[of "Some k" "Some (lastAccessed (snd cd))"] Cons.IH[of ok ot]
    by (auto simp: kv)
qed

lemma oldest_scan_nonempty:
  "m \<noteq> [] \<Longrightarrow> \<exists>k. fst (oldest_scan m (None, None)) = Some k \<and> k \<in> fst ` set m"
proof (cases m)
  case Nil
  then show "m \<noteq> [] \<Longrightarrow> ?thesis" by simp
next
  case (Cons kv rest)
  obtain k cd where kv: "kv = (k, cd)" by (cases kv)
  show ?thesis
    using oldest_scan_key[of rest "Some k" "Some (lastAccessed (snd cd))"]
    by (auto simp: Cons kv)
qed

lemma evictLRU_maxSize: "maxSize (LRUCache_evictLRU c) = maxSize c"
  by (simp add: LRUCache_evictLRU_def delete_maxSize split: option.splits)

lemma evictLRU_inv: "cache_inv c \<Longrightarrow> cache_inv (LRUCache_evictLRU c)"
  by (simp add: LRUCache_evictLRU_def delete_inv split: option.splits)

lemma evict_loop_skip:
  "\<not> (currentSize c + m > maxSize c \<and> length (cache c) > 0) \<Longrightarrow> evict_loop c m = Some c"
  by (subst evict_loop.simps) auto

lemma evict_loop_step:
  "currentSize c + m > maxSize c \<Longrightarrow> cache c \<noteq> [] \<Longrightarrow>
     evict_loop c m = evict_loop (LRUCache_evictLRU c) m"
  by (subst evict_loop.simps) simp

text \<open>What holds of every state the loop exits with.\<close>

lemma evict_loop_post:
  "evict_loop c m = Some c' \<Longrightarrow>
     (cache_inv c \<longrightarrow> cache_inv c') \<and> maxSize c' = maxSize c
     \<and> (currentSize c' + m \<le> maxSize c' \<or> cache c' = [])"
proof (rule evict_loop.raw_induct[where P = "\<lambda>c m c'.
         (cache_inv c \<longrightarrow> cache_inv c') \<and> maxSize c' = maxSize c
         \<and> (currentSize c' + m \<le> maxSize c' \<or> cache c' = [])"])
  fix f c m c'
  assume IH: "\<And>c m c'. f c m = Some c' \<Longrightarrow>
         (cache_inv c \<longrightarrow> cache_inv c') \<and> maxSize c' = maxSize c
         \<and> (currentSize c' + m \<le> maxSize c' \<or> cache c' = [])"
    and step: "(if maxSize c < currentSize c + m \<and> 0 < length (cache c)
                then f (LRUCache_evictLRU c) m else Some c) = Some c'"
  show "(cache_inv c \<longrightarrow> cache_inv c') \<and> maxSize c' = maxSize c
         \<and> (currentSize c' + m \<le> maxSize c' \<or> cache c' = [])"
  proof (cases "maxSize c < currentSize c + m \<and> 0 < length (cache c)")
    case True
    with step have "f (LRUCache_evictLRU c) m = Some c'" by simp
    from IH[OF this] show ?thesis by (auto simp add: evictLRU_inv evictLRU_maxSize)
  next
    case False
    with step have "c' = c" by (auto split: if_splits)
    with False show ?thesis by auto
  qed
qed

lemma cache_inv_nonneg: "cache_inv c \<Longrightarrow> 0 \<le> currentSize c"
  by (auto simp: cache_inv_def list_all_iff intro: sum_list_nonneg)

lemma cache_inv_empty: "cache_inv c \<Longrightarrow> cache c = [] \<Longrightarrow> currentSize c = 0"
  by (simp add: cache_inv_def entry_sizes_def)

subsection \<open>What a returning set leaves behind\<close>

lemma set_cases:
  assumes "LRUCache_set c k model now = Some (r, c')"
  obtains (oversized) c1 where "evict_loop c (info_size (info model)) = Some c1"
      "maxSize c1 < info_size (info model)"
      "r = Inl (CapacityExceeded (info_size (info model)) (maxSize c1))" "c' = c1"
  | (fresh) c1 where "evict_loop c (info_size (info model)) = Some c1"
      "info_size (info model) \<le> maxSize c1" "Map_get (cache c1) k = None" "r = Inr ()"
      "c' = c1\<lparr>cache := cache c1 @ [(k, (model, \<lparr>key = k, modelId = model_id model,
                 entry_size = info_size (info model), lastAccessed = now, hitCount = 1\<rparr>))],
               currentSize := currentSize c1 + info_size (info model)\<rparr>"
  | (overwrite) c1 exModel exEntry where "evict_loop c (info_size (info model)) = Some c1"
      "info_size (info model) \<le> maxSize c1" "Map_get (cache c1) k = Some (exModel, exEntry)"
      "r = Inr ()"
      "c' = c1\<lparr>unloaded := unloaded c1 @ [model_id exModel],
               cache := Map_set (cache c1) k (model, \<lparr>key = k, modelId = model_id model,
                 entry_size = info_size (info model), lastAccessed = now, hitCount = 1\<rparr>),
               currentSize := currentSize c1 - entry_size exEntry + info_size (info model)\<rparr>"
proof -
  from assms obtain c1 where c1: "evict_loop c (info_size (info model)) = Some c1"
    by (auto simp: LRUCache_set_def Let_def split: option.splits)
  show ?thesis
  proof (cases "maxSize c1 < info_size (info model)")
    case True
    with assms c1 show ?thesis
      by (intro oversized[of c1]) (auto simp: LRUCache_set_def Let_def)
  next
    case False
    show ?thesis
    proof (cases "Map_get (cache c1) k")
      case None
      with assms c1 False show ?thesis
        by (intro fresh[of c1])
          (auto simp: LRUCache_set_def Let_def Map_set_absent Map_get_def)
    next
      case (Some ex)
      obtain exModel exEntry where ex: "ex = (exModel, exEntry)" by (cases ex)
      with assms c1 False Some show ?thesis
        by (intro overwrite[of c1 exModel exEntry]) (auto simp: LRUCache_set_def Let_def)
    qed
  qed
qed

lemma set_result:
  assumes inv: "cache_inv c" and nn: "0 \<le> info_size (info model)"
    and run: "LRUCache_set c k model now = Some (r, c')"
  shows "cache_inv c' \<and> maxSize c' = maxSize c
       \<and> (r = Inr () \<longrightarrow> info_size (info model) \<le> maxSize c \<and> currentSize c' \<le> maxSize c'
             \<and> sum_list (entry_sizes c') \<le> maxSize c')
       \<and> (r \<noteq> Inr () \<longrightarrow> maxSize c < info_size (info model) \<and> cache c' = []
             \<and> r = Inl (CapacityExceeded (info_size (info model)) (maxSize c)))"
  using run
proof (cases rule: set_cases)
  case (oversized c1)
  from evict_loop_post[OF oversized(1)] inv
  have p: "cache_inv c1" "maxSize c1 = maxSize c"
    "currentSize c1 + info_size (info model) \<le> maxSize c1 \<or> cache c1 = []" by auto
  have "cache c1 = []" using p(3) cache_inv_nonneg[OF p(1)] oversized(2) by linarith
  with oversized p show ?thesis by auto
next
  case (fresh c1)
  from evict_loop_post[OF fresh(1)] inv
  have p: "cache_inv c1" "maxSize c1 = maxSize c"
    "currentSize c1 + info_size (info model) \<le> maxSize c1 \<or> cache c1 = []" by auto
  have notin: "k \<notin> fst ` set (cache c1)"
    using fresh(3) by (simp add: Map_get_def map_of_eq_None_iff)
  have i: "cache_inv c'"
    using p(1) nn notin by (auto simp: fresh(5) cache_inv_def cache_keys_def entry_sizes_def)
  have b: "currentSize c' \<le> maxSize c'"
    using p(3) cache_inv_empty[OF p(1)] fresh(2) by (auto simp: fresh(5))
  from i b have "sum_list (entry_sizes c') \<le> maxSize c'" by (simp add: cache_inv_def)
  with i b fresh p show ?thesis by auto
next
  case (overwrite c1 exModel exEntry)
  from evict_loop_post[OF overwrite(1)] inv
  have p: "cache_inv c1" "maxSize c1 = maxSize c"
    "currentSize c1 + info_size (info model) \<le> maxSize c1 \<or> cache c1 = []" by auto
  let ?new = "(model, \<lparr>key = k, modelId = model_id model,
                 entry_size = info_size (info model), lastAccessed = now, hitCount = 1\<rparr>)"
  have d: "distinct (map fst (cache c1))" using p(1) by (simp add: cache_inv_def cache_keys_def)
  have m: "map_of (cache c1) k = Some (exModel, exEntry)"
    using overwrite(3) by (simp add: Map_get_def)
  have ne: "cache c1 \<noteq> []" using m by auto
  have ex_in: "(k, (exModel, exEntry)) \<in> set (cache c1)" using m by (rule map_of_SomeD)
  have ex_nn: "0 \<le> entry_size exEntry"
    using p(1) ex_in by (auto simp: cache_inv_def entry_sizes_def list_all_iff)
  have s: "sum_list (map (\<lambda>kv. entry_size (snd (snd kv))) (Map_set (cache c1) k ?new))
             = sum_list (map (\<lambda>kv. entry_size (snd (snd kv))) (cache c1))
                 - entry_size exEntry + info_size (info model)"
    using Map_set_sum_present[OF d m, of "\<lambda>kv. entry_size (snd (snd kv))" ?new] by simp
  have a: "list_all (\<lambda>s. 0 \<le> s)
             (map (\<lambda>kv. entry_size (snd (snd kv))) (Map_set (cache c1) k ?new))"
    using p(1) nn Map_set_subset[of "cache c1" k ?new]
    by (auto simp: cache_inv_def entry_sizes_def list_all_iff)
  have i: "cache_inv c'"
    using p(1) s a d
    by (simp add: overwrite(5) cache_inv_def cache_keys_def entry_sizes_def
          Map_set_keys_present[OF m])
  have b: "currentSize c' \<le> maxSize c'"
    using p(3) ne ex_nn by (auto simp: overwrite(5))
  from i b have "sum_list (entry_sizes c') \<le> maxSize c'" by (simp add: cache_inv_def)
  with i b overwrite p show ?thesis by auto
qed

lemma new_inv: "cache_inv (LRUCache_new maxSizeMB)"
  by (simp add: cache_inv_def LRUCache_new_def cache_keys_def entry_sizes_def)

text \<open>
  The part of the eviction bound that holds for every sequence of \<open>set\<close> calls with
  non-negative model sizes that returns: after each call that completed without error the
  entry sizes sum to at most \<open>maxSize\<close>, and \<open>currentSize\<close> is that sum.
\<close>

lemma set_seq_bound:
  assumes "cache_inv c" "list_all (\<lambda>call. 0 \<le> info_size (info (fst (snd call)))) calls"
    and "set_seq c calls = Some results"
  shows "list_all (\<lambda>rc. cache_inv (snd rc) \<and> maxSize (snd rc) = maxSize c \<and>
           (fst rc = Inr () \<longrightarrow> currentSize (snd rc) \<le> maxSize c
              \<and> sum_list (entry_sizes (snd rc)) \<le> maxSize c)) results"
  using assms
proof (induction calls arbitrary: c results)
  case Nil
  then show ?case by simp
next
  case (Cons call calls)
  obtain k model now where call: "call = (k, model, now)" by (cases call)
  from Cons.prems(3) obtain r c' rest where
    st: "LRUCache_set c k model now = Some (r, c')" and
    rest: "set_seq c' calls = Some rest" and res: "results = (r, c') # rest"
    by (auto simp: call split: option.splits)
  have nn: "0 \<le> info_size (info model)" using Cons.prems(2) by (simp add: call)
  note sr = set_result[OF Cons.prems(1) nn st]
  have "list_all (\<lambda>rc. cache_inv (snd rc) \<and> maxSize (snd rc) = maxSize c' \<and>
           (fst rc = Inr () \<longrightarrow> currentSize (snd rc) \<le> maxSize c'
              \<and> sum_list (entry_sizes (snd rc)) \<le> maxSize c')) rest"
    using Cons.IH[OF _ _ rest] sr Cons.prems(2) by simp
  with sr show ?case by (auto simp: res)
qed

subsection \<open>Termination of the eviction loop when no cached key is the empty string\<close>

lemma evictLRU_progress:
  assumes "cache_inv c" "cache c \<noteq> []" "[] \<notin> set (cache_keys c)"
  shows "Suc (length (cache (LRUCache_evictLRU c))) = length (cache c)
       \<and> set (cache_keys (LRUCache_evictLRU c)) \<subseteq> set (cache_keys c)"
proof -
  from oldest_scan_nonempty[OF assms(2)] obtain k where
    k: "fst (oldest_scan (cache c) (None, None)) = Some k" "k \<in> fst ` set (cache c)" by blast
  have kne: "k \<noteq> []" using k(2) assms(3) by (force simp: cache_keys_def)
  from k(2) obtain me where m: "map_of (cache c) k = Some me"
    by (metis map_of_eq_None_iff not_Some_eq)
  obtain model entry where me: "me = (model, entry)" by (cases me)
  have d: "distinct (map fst (cache c))" using assms(1) by (simp add: cache_inv_def cache_keys_def)
  have e: "LRUCache_evictLRU c = LRUCache_delete c k"
    using k(1) kne by (simp add: LRUCache_evictLRU_def)
  have "cache (LRUCache_delete c k) = Map_delete (cache c) k"
    using m me by (simp add: LRUCache_delete_def Map_get_def)
  then show ?thesis
    using Map_delete_length[OF d m] Map_delete_subset[of "cache c" k]
    by (auto simp: e cache_keys_def)
qed

lemma evict_loop_terminates:
  "cache_inv c \<Longrightarrow> [] \<notin> set (cache_keys c) \<Longrightarrow>
     \<exists>c'. evict_loop c m = Some c' \<and> set (cache_keys c') \<subseteq> set (cache_keys c)"
proof (induction "length (cache c)" arbitrary: c)
  case 0
  then have "evict_loop c m = Some c" by (simp add: evict_loop_skip)
  then show ?case by simp
next
  case (Suc n)
  show ?case
  proof (cases "currentSize c + m > maxSize c \<and> length (cache c) > 0")
    case False
    then have "evict_loop c m = Some c" by (rule evict_loop_skip)
    then show ?thesis by simp
  next
    case True
    then have ne: "cache c \<noteq> []" by auto
    note pr = evictLRU_progress[OF Suc.prems(1) ne Suc.prems(2)]
    have n: "n = length (cache (LRUCache_evictLRU c))" using pr Suc.hyps(2) by simp
    have k: "[] \<notin> set (cache_keys (LRUCache_evictLRU c))" using pr Suc.prems(2) by auto
    from Suc.hyps(1)[OF n evictLRU_inv[OF Suc.prems(1)] k] obtain c' where
      "evict_loop (LRUCache_evictLRU c) m = Some c'"
      "set (cache_keys c') \<subseteq> set (cache_keys (LRUCache_evictLRU c))" by blast
    with pr True ne show ?thesis by (auto simp: evict_loop_step)
  qed
qed

text \<open>
  With non-negative sizes and no empty key in the cache, \<open>set\<close> returns: it completes when
  the model fits the capacity and throws the capacity error, installing nothing, when it
  does not.
\<close>

lemma set_returns:
  assumes "cache_inv c" "[] \<notin> set (cache_keys c)" "0 \<le> info_size (info model)"
  shows "\<exists>r c'. LRUCache_set c k model now = Some (r, c')
           \<and> (r = Inr () \<longleftrightarrow> info_size (info model) \<le> maxSize c)
           \<and> (r \<noteq> Inr () \<longrightarrow> cache c' = []
                 \<and> r = Inl (CapacityExceeded (info_size (info model)) (maxSize c)))"
proof -
  from evict_loop_terminates[OF assms(1,2)] obtain c1 where
    "evict_loop c (info_size (info model)) = Some c1" by blast
  then have "LRUCache_set c k model now \<noteq> None"
    by (simp add: LRUCache_set_def Let_def)
  then obtain r c' where run: "LRUCache_set c k model now = Some (r, c')"
    by (cases "LRUCache_set c k model now") auto
  from set_result[OF assms(1,3) run] run show ?thesis by auto
qed

subsection \<open>Hit counts and the hit rate\<close>

lemma evict_loop_subset:
  "evict_loop c m = Some c' \<Longrightarrow> set (cache c') \<subseteq> set (cache c)"
proof (rule evict_loop.raw_induct[where P = "\<lambda>c m c'. set (cache c') \<subseteq> set (cache c)"])
  fix f c m c'
  assume IH: "\<And>c m c'. f c m = Some c' \<Longrightarrow> set (cache c') \<subseteq> set (cache c)"
    and step: "(if maxSize c < currentSize c + m \<and> 0 < length (cache c)
                then f (LRUCache_evictLRU c) m else Some c) = Some c'"
  have ev: "set (cache (LRUCache_evictLRU c)) \<subseteq> set (cache c)"
    using Map_delete_subset[of "cache c"]
    by (auto simp: LRUCache_evictLRU_def LRUCache_delete_def split: option.splits)
  show "set (cache c') \<subseteq> set (cache c)"
  proof (cases "maxSize c < currentSize c + m \<and> 0 < length (cache c)")
    case True
    with step have "f (LRUCache_evictLRU c) m = Some c'" by simp
    from IH[OF this] ev show ?thesis by blast
  next
    case False
    with step show ?thesis by (auto split: if_splits)
  qed
qed

lemma hits_ok_subset: "hits_ok c \<Longrightarrow> set (cache c') \<subseteq> set (cache c) \<Longrightarrow> hits_ok c'"
  by (auto simp: hits_ok_def list_all_iff)

lemma delete_subset: "set (cache (LRUCache_delete c k)) \<subseteq> set (cache c)"
  using Map_delete_subset[of "cache c" k]
  by (auto simp: LRUCache_delete_def split: option.splits)

lemma foldl_delete_subset: "set (cache (foldl LRUCache_delete c ks)) \<subseteq> set (cache c)"
proof (induction ks arbitrary: c)
  case Nil
  show ?case by simp
next
  case (Cons k ks)
  from Cons.IH[of "LRUCache_delete c k"] delete_subset[of c k] show ?case by auto
qed

lemma get_hits_ok: "hits_ok c \<Longrightarrow> hits_ok (snd (LRUCache_get c k now))"
proof (cases "Map_get (cache c) k")
  case None
  then show "hits_ok c \<Longrightarrow> ?thesis" by (simp add: LRUCache_get_def)
next
  case (Some me)
  obtain model entry where me: "me = (model, entry)" by (cases me)
  assume h: "hits_ok c"
  have "(k, (model, entry)) \<in> set (cache c)"
    using Some me by (auto simp: Map_get_def dest: map_of_SomeD)
  then have e: "1 \<le> hitCount entry" using h by (auto simp: hits_ok_def list_all_iff)
  let ?new = "(model, entry\<lparr>lastAccessed := now, hitCount := hitCount entry + 1\<rparr>)"
  have "set (Map_set (Map_delete (cache c) k) k ?new) \<subseteq> insert (k, ?new) (set (cache c))"
    using Map_set_subset[of "Map_delete (cache c) k" k ?new] Map_delete_subset[of "cache c" k]
    by blast
  then show ?thesis
    using h e Some me by (auto simp: LRUCache_get_def Let_def hits_ok_def list_all_iff)
qed

lemma set_hits_ok:
  assumes "hits_ok c" "LRUCache_set c k model now = Some (r, c')"
  shows "hits_ok c'"
  using assms(2)
proof (cases rule: set_cases)
  case (oversized c1)
  with assms(1) evict_loop_subset[OF oversized(1)] show ?thesis by (simp add: hits_ok_subset)
next
  case (fresh c1)
  have "hits_ok c1" using assms(1) evict_loop_subset[OF fresh(1)] by (rule hits_ok_subset)
  then show ?thesis by (simp add: fresh(5) hits_ok_def)
next
  case (overwrite c1 exModel exEntry)
  have h1: "hits_ok c1" using assms(1) evict_loop_subset[OF overwrite(1)] by (rule hits_ok_subset)
  let ?new = "(model, \<lparr>key = k, modelId = model_id model,
                 entry_size = info_size (info model), lastAccessed = now, hitCount = 1\<rparr>)"
  show ?thesis
    using h1 Map_set_subset[of "cache c1" k ?new]
    by (auto simp: overwrite(5) hits_ok_def list_all_iff)
qed

lemma reachable_hits_ok: "reachable c \<Longrightarrow> hits_ok c"
proof (induction rule: reachable.induct)
  case (r_new maxSizeMB)
  show ?case by (simp add: hits_ok_def LRUCache_new_def)
next
  case (r_get c k now)
  then show ?case by (simp add: get_hits_ok)
next
  case (r_set c k model now r c')
  then show ?case by (simp add: set_hits_ok)
next
  case (r_delete c k)
  then show ?case using delete_subset hits_ok_subset by blast
next
  case (r_clear c)
  show ?case by (simp add: hits_ok_def LRUCache_clear_def)
next
  case (r_prune c maxAge now)
  then show ?case
    using foldl_delete_subset hits_ok_subset by (simp add: LRUCache_prune_def Let_def)
qed

lemma foldl_hits:
  "foldl (\<lambda>sum kv. sum + hitCount (snd (snd kv))) a m
     = a + sum_list (map (\<lambda>kv. hitCount (snd (snd kv))) m)"
  by (induction m arbitrary: a) simp_all

lemma hits_sum_ge:
  "list_all (\<lambda>kv. 1 \<le> hitCount (snd (snd kv))) m \<Longrightarrow>
     int (length m) \<le> sum_list (map (\<lambda>kv. hitCount (snd (snd kv))) m)"
  by (induction m) auto

lemma totalHits_ge: "hits_ok c \<Longrightarrow> int (length (cache c)) \<le> totalHits c"
  using hits_sum_ge[of "cache c"] by (simp add: hits_ok_def totalHits_def foldl_hits)

lemma hitRate_degenerate:
  "hitRate (LRUCache_getStats c) = (if 0 < totalHits c then 1 else 0)"
  by (simp add: LRUCache_getStats_def Let_def)

text \<open>
  C9. \<open>getStats()\<close> reports a hit rate of 1 when the accumulated hit count is positive and
  of 0 when it is zero. Every entry is created with hit count 1 and hit counts only grow, so
  in every reachable state the hit rate is 1 for a non-empty cache and 0 for an empty one,
  whether or not \<open>get\<close> was ever called.
\<close>

theorem hitRate_one_iff_nonempty:
  "hitRate (LRUCache_getStats c) = (if 0 < totalHits c then 1 else 0)
   \<and> (reachable c \<longrightarrow>
         (0 < totalHits c \<longleftrightarrow> cache c \<noteq> [])
         \<and> hitRate (LRUCache_getStats c) = (if cache c = [] then 0 else 1))"
proof -
  have "(0 < totalHits c \<longleftrightarrow> cache c \<noteq> [])" if "reachable c"
  proof
    assume "0 < totalHits c"
    then show "cache c \<noteq> []" by (auto simp: totalHits_def)
  next
    assume "cache c \<noteq> []"
    then have "0 < int (length (cache c))" by simp
    with totalHits_ge[OF reachable_hits_ok[OF that]] show "0 < totalHits c" by linarith
  qed
  then show ?thesis using hitRate_degenerate[of c] by auto
qed

lemma set_on_new:
  "0 \<le> s \<Longrightarrow> s \<le> mb * 1024 * 1024 \<Longrightarrow>
   LRUCache_set (LRUCache_new mb) k (mk_model i s) now =
     Some (Inr (),
       \<lparr>cache = [(k, (mk_model i s,
                  \<lparr>key = k, modelId = i, entry_size = s, lastAccessed = now, hitCount = 1\<rparr>))],
        maxSize = mb * 1024 * 1024, currentSize = s, unloaded = []\<rparr>)"
  by (simp add: LRUCache_set_def LRUCache_new_def evict_loop_skip mk_model_def Map_get_def)

theorem hitRate_one_iff_nonempty_witness:
  "reachable (LRUCache_new 1) \<and> hitRate (LRUCache_getStats (LRUCache_new 1)) = 0
   \<and> (\<exists>c. LRUCache_set (LRUCache_new 1) ''a'' (mk_model ''m1'' 5) 1 = Some (Inr (), c)
          \<and> reachable c \<and> hitRate (LRUCache_getStats c) = 1
          \<and> reachable (snd (LRUCache_get c ''a'' 2))
          \<and> hitRate (LRUCache_getStats (snd (LRUCache_get c ''a'' 2))) = 1)"
proof -
  let ?c = "\<lparr>cache = [(''a'', (mk_model ''m1'' 5,
                  \<lparr>key = ''a'', modelId = ''m1'', entry_size = 5, lastAccessed = 1,
                     hitCount = 1\<rparr>))],
        maxSize = 1 * 1024 * 1024, currentSize = 5, unloaded = []\<rparr>"
  have s: "LRUCache_set (LRUCache_new 1) ''a'' (mk_model ''m1'' 5) 1 = Some (Inr (), ?c)"
    by (rule set_on_new) simp_all
  have r0: "reachable (LRUCache_new 1)" by (rule r_new)
  have r1: "reachable ?c" using r_set[OF r0 s] .
  have r2: "reachable (snd (LRUCache_get ?c ''a'' 2))" using r_get[OF r1] .
  have e0: "cache (LRUCache_new 1) = []" by (simp add: LRUCache_new_def)
  have e1: "cache ?c \<noteq> []" by simp
  have e2: "cache (snd (LRUCache_get ?c ''a'' 2)) \<noteq> []"
    by (simp add: LRUCache_get_def Map_get_def Map_delete_def)
  note T = hitRate_one_iff_nonempty
  have "hitRate (LRUCache_getStats (LRUCache_new 1)) = 0"
    using T[of "LRUCache_new 1"] r0 e0 by simp
  moreover have "hitRate (LRUCache_getStats ?c) = 1"
    using T[of ?c] r1 e1 by (simp del: One_nat_def)
  moreover have "hitRate (LRUCache_getStats (snd (LRUCache_get ?c ''a'' 2))) = 1"
    using T[of "snd (LRUCache_get ?c ''a'' 2)"] r2 e2 by (simp del: One_nat_def)
  ultimately show ?thesis using s r0 r1 r2 by blast
qed

subsection \<open>Runs on concrete inputs\<close>

text \<open>
  When \<open>evictLRU\<close> leaves the state as it is while the loop condition holds, the loop
  never exits.
\<close>

lemma evict_loop_Some_progress:
  "evict_loop c m = Some c' \<Longrightarrow>
     \<not> (LRUCache_evictLRU c = c \<and> maxSize c < currentSize c + m \<and> 0 < length (cache c))"
proof (rule evict_loop.raw_induct[where P = "\<lambda>c m c'.
         \<not> (LRUCache_evictLRU c = c \<and> maxSize c < currentSize c + m \<and> 0 < length (cache c))"])
  fix f c m c'
  assume IH: "\<And>c m c'. f c m = Some c' \<Longrightarrow>
         \<not> (LRUCache_evictLRU c = c \<and> maxSize c < currentSize c + m \<and> 0 < length (cache c))"
    and step: "(if maxSize c < currentSize c + m \<and> 0 < length (cache c)
                then f (LRUCache_evictLRU c) m else Some c) = Some c'"
  show "\<not> (LRUCache_evictLRU c = c \<and> maxSize c < currentSize c + m \<and> 0 < length (cache c))"
  proof
    assume st: "LRUCache_evictLRU c = c \<and> maxSize c < currentSize c + m \<and> 0 < length (cache c)"
    with step have "f c m = Some c'" by simp
    from IH[OF this] st show False by simp
  qed
qed

lemma evict_loop_stuck:
  "LRUCache_evictLRU c = c \<Longrightarrow> maxSize c < currentSize c + m \<Longrightarrow> cache c \<noteq> [] \<Longrightarrow>
     evict_loop c m = None"
  using evict_loop_Some_progress[of c m] by (cases "evict_loop c m") auto

text \<open>
  C1 (defect). A cache of 1 MB holds one 5-byte model under the key \<open>""\<close>. A \<open>set\<close> of a
  model of 1048577 bytes, one byte more than the capacity, then never returns: \<open>evictLRU\<close>
  finds the key \<open>""\<close>, its test \<^verbatim>\<open>if (oldestKey)\<close> fails on the empty string, nothing is
  deleted and the loop condition stays true. No capacity error is thrown.
\<close>

theorem set_oversized_never_returns_with_empty_key:
  "set_seq (LRUCache_new 1) [([], mk_model ''m0'' 5, 1)]
     = Some [(Inr (),
          \<lparr>cache = [([], (mk_model ''m0'' 5,
                     \<lparr>key = [], modelId = ''m0'', entry_size = 5, lastAccessed = 1,
                        hitCount = 1\<rparr>))],
           maxSize = 1048576, currentSize = 5, unloaded = []\<rparr>)]
   \<and> maxSize (LRUCache_new 1) < info_size (info (mk_model ''m1'' 1048577))
   \<and> set_seq (LRUCache_new 1)
        [([], mk_model ''m0'' 5, 1), (''x'', mk_model ''m1'' 1048577, 2)] = None"
proof -
  let ?c = "\<lparr>cache = [([], (mk_model ''m0'' 5,
                     \<lparr>key = [], modelId = ''m0'', entry_size = 5, lastAccessed = 1,
                        hitCount = 1\<rparr>))],
           maxSize = 1048576, currentSize = 5, unloaded = []\<rparr>"
  have s1: "LRUCache_set (LRUCache_new 1) [] (mk_model ''m0'' 5) 1 = Some (Inr (), ?c)"
    using set_on_new[of 5 1 "[]" "''m0''" 1] by simp
  have ev: "LRUCache_evictLRU ?c = ?c" by (simp add: LRUCache_evictLRU_def)
  have "evict_loop ?c 1048577 = None"
    by (rule evict_loop_stuck[OF ev]) simp_all
  then have s2: "LRUCache_set ?c ''x'' (mk_model ''m1'' 1048577) 2 = None"
    by (simp add: LRUCache_set_def mk_model_def)
  show ?thesis
    using s1 s2 by (simp add: LRUCache_new_def mk_model_def)
qed

lemma evict_loop_evaluate:
  "evict_loop c m =
     (if currentSize c + m > maxSize c \<and> cache c \<noteq> []
      then evict_loop (LRUCache_evictLRU c) m else Some c)"
  by (subst evict_loop.simps) simp

text \<open>
  C2 (defect). First run: a cache of 1 MB holds the 5-byte model \<open>m0\<close>; a \<open>set\<close> of a model
  of 1048577 bytes unloads \<open>m0\<close> and then throws the capacity error, although no eviction
  could make room for it. Second run: the cache holds \<open>b\<close> (400000 bytes) and \<open>a\<close> (600000
  bytes); setting \<open>a\<close> again with a model of the same 600000 bytes unloads both \<open>b\<close> and the
  old \<open>a\<close>, although replacing \<open>a\<close> needed no room at all.
\<close>

theorem set_evicts_entries_it_did_not_need:
  "map_option (map (\<lambda>rc. (fst rc, cache_keys (snd rc), currentSize (snd rc), unloaded (snd rc))))
     (set_seq (LRUCache_new 1)
        [(''a'', mk_model ''m0'' 5, 1), (''x'', mk_model ''m1'' 1048577, 2)])
     = Some [(Inr (), [''a''], 5, []),
             (Inl (CapacityExceeded 1048577 1048576), [], 0, [''m0''])]
   \<and> map_option (map (\<lambda>rc. (fst rc, cache_keys (snd rc), currentSize (snd rc), unloaded (snd rc))))
     (set_seq (LRUCache_new 1)
        [(''b'', mk_model ''mb'' 400000, 1), (''a'', mk_model ''ma'' 600000, 2),
         (''a'', mk_model ''ma2'' 600000, 3)])
     = Some [(Inr (), [''b''], 400000, []),
             (Inr (), [''b'', ''a''], 1000000, []),
             (Inr (), [''a''], 600000, [''mb'', ''ma''])]
   \<and> (400000::int) + 600000 \<le> maxSize (LRUCache_new 1)"
  by (simp add: set_on_new LRUCache_set_def LRUCache_new_def mk_model_def evict_loop_evaluate
        LRUCache_evictLRU_def LRUCache_delete_def Map_get_def Map_delete_def cache_keys_def)

subsection \<open>Least-recently-used order\<close>

lemma evictLRU_unloaded:
  "LRUCache_evictLRU c = c \<or> length (unloaded (LRUCache_evictLRU c)) = Suc (length (unloaded c))"
  by (auto simp: LRUCache_evictLRU_def LRUCache_delete_def split: option.splits)

text \<open>The loop only adds to the unload log, and adds nothing only if it changes nothing.\<close>

lemma evict_loop_unloaded:
  "evict_loop c m = Some c' \<Longrightarrow>
     length (unloaded c) \<le> length (unloaded c')
     \<and> (length (unloaded c') = length (unloaded c) \<longrightarrow> c' = c)"
proof (rule evict_loop.raw_induct[where P = "\<lambda>c m c'.
         length (unloaded c) \<le> length (unloaded c')
         \<and> (length (unloaded c') = length (unloaded c) \<longrightarrow> c' = c)"])
  fix f c m c'
  assume IH: "\<And>c m c'. f c m = Some c' \<Longrightarrow>
         length (unloaded c) \<le> length (unloaded c')
         \<and> (length (unloaded c') = length (unloaded c) \<longrightarrow> c' = c)"
    and step: "(if maxSize c < currentSize c + m \<and> 0 < length (cache c)
                then f (LRUCache_evictLRU c) m else Some c) = Some c'"
  show "length (unloaded c) \<le> length (unloaded c')
         \<and> (length (unloaded c') = length (unloaded c) \<longrightarrow> c' = c)"
  proof (cases "maxSize c < currentSize c + m \<and> 0 < length (cache c)")
    case True
    with step have "f (LRUCache_evictLRU c) m = Some c'" by simp
    from IH[OF this] evictLRU_unloaded[of c] show ?thesis by auto
  next
    case False
    with step show ?thesis by (auto split: if_splits)
  qed
qed

lemma abc_state:
  assumes d: "distinct [kA, kB, kC]"
    and nn: "0 \<le> info_size (info mA)" "0 \<le> info_size (info mB)" "0 \<le> info_size (info mC)"
    and fit: "info_size (info mA) + info_size (info mB) + info_size (info mC)
                \<le> maxSizeMB * 1024 * 1024"
  shows "abc_then_get maxSizeMB kA mA t1 kB mB t2 kC mC t3 t4 =
     Some \<lparr>cache =
             [(kB, (mB, \<lparr>key = kB, modelId = model_id mB, entry_size = info_size (info mB),
                         lastAccessed = t2, hitCount = 1\<rparr>)),
              (kC, (mC, \<lparr>key = kC, modelId = model_id mC, entry_size = info_size (info mC),
                         lastAccessed = t3, hitCount = 1\<rparr>)),
              (kA, (mA, \<lparr>key = kA, modelId = model_id mA, entry_size = info_size (info mA),
                         lastAccessed = t4, hitCount = 2\<rparr>))],
           maxSize = maxSizeMB * 1024 * 1024,
           currentSize = info_size (info mA) + info_size (info mB) + info_size (info mC),
           unloaded = []\<rparr>"
proof -
  let ?M = "maxSizeMB * 1024 * 1024"
  let ?eA = "\<lparr>key = kA, modelId = model_id mA, entry_size = info_size (info mA),
               lastAccessed = t1, hitCount = 1\<rparr>"
  let ?eB = "\<lparr>key = kB, modelId = model_id mB, entry_size = info_size (info mB),
               lastAccessed = t2, hitCount = 1\<rparr>"
  let ?eC = "\<lparr>key = kC, modelId = model_id mC, entry_size = info_size (info mC),
               lastAccessed = t3, hitCount = 1\<rparr>"
  let ?c1 = "\<lparr>cache = [(kA, (mA, ?eA))], maxSize = ?M,
               currentSize = info_size (info mA), unloaded = []\<rparr>"
  let ?c2 = "\<lparr>cache = [(kA, (mA, ?eA)), (kB, (mB, ?eB))], maxSize = ?M,
               currentSize = info_size (info mA) + info_size (info mB), unloaded = []\<rparr>"
  let ?c3 = "\<lparr>cache = [(kA, (mA, ?eA)), (kB, (mB, ?eB)), (kC, (mC, ?eC))], maxSize = ?M,
               currentSize = info_size (info mA) + info_size (info mB) + info_size (info mC),
               unloaded = []\<rparr>"
  have ne: "kA \<noteq> kB" "kB \<noteq> kA" "kA \<noteq> kC" "kC \<noteq> kA" "kB \<noteq> kC" "kC \<noteq> kB"
    using d by auto
  have s1: "set_ok (LRUCache_new maxSizeMB) kA mA t1 = Some ?c1"
    using nn fit
    by (simp add: set_ok_def LRUCache_set_def LRUCache_new_def evict_loop_skip Map_get_def Let_def)
  have s2: "set_ok ?c1 kB mB t2 = Some ?c2"
    using nn fit ne
    by (simp add: set_ok_def LRUCache_set_def evict_loop_skip Map_get_def Let_def)
  have s3: "set_ok ?c2 kC mC t3 = Some ?c3"
    using nn fit ne
    by (simp add: set_ok_def LRUCache_set_def evict_loop_skip Map_get_def Let_def)
  show ?thesis
    unfolding abc_then_get_def s1 s2 s3 option.case
    using ne by (simp add: LRUCache_get_def Map_get_def Map_delete_def)
qed

text \<open>
  What holds of the LRU order. A, B and C are set in that order on a fresh cache, each
  fitting, and A is then read with \<open>get\<close>, which stamps A with the time of the read and
  moves it to the end of the iteration order. A following \<open>set\<close> of a new key D that
  returns after exactly one eviction has evicted B and kept A and C; and when B's key is not
  the empty string and the sizes call for exactly one eviction, that \<open>set\<close> does return. The
  clock readings of the calls do not decrease.
\<close>

lemma lru_order_when_set_returns:
  assumes d: "distinct [kA, kB, kC, kD]"
    and t: "t1 \<le> t2" "t2 \<le> t3" "t3 \<le> t4"
    and nn: "0 \<le> info_size (info mA)" "0 \<le> info_size (info mB)" "0 \<le> info_size (info mC)"
    and fit: "info_size (info mA) + info_size (info mB) + info_size (info mC)
                \<le> maxSizeMB * 1024 * 1024"
  shows "\<exists>c4. abc_then_get maxSizeMB kA mA t1 kB mB t2 kC mC t3 t4 = Some c4
           \<and> cache_keys c4 = [kB, kC, kA]
           \<and> map (\<lambda>kv. lastAccessed (snd (snd kv))) (cache c4) = [t2, t3, t4]
           \<and> unloaded c4 = []
           \<and> maxSize c4 = maxSizeMB * 1024 * 1024
           \<and> currentSize c4 = info_size (info mA) + info_size (info mB) + info_size (info mC)
           \<and> (\<forall>r c5. LRUCache_set c4 kD mD t5 = Some (r, c5) \<and> length (unloaded c5) = 1
                 \<longrightarrow> r = Inr () \<and> unloaded c5 = [model_id mB]
                      \<and> cache_keys c5 = [kC, kA, kD])
           \<and> (kB \<noteq> [] \<and> maxSize c4 < currentSize c4 + info_size (info mD)
               \<and> currentSize c4 - info_size (info mB) + info_size (info mD) \<le> maxSize c4
                 \<longrightarrow> (\<exists>c5. LRUCache_set c4 kD mD t5 = Some (Inr (), c5)
                        \<and> unloaded c5 = [model_id mB] \<and> cache_keys c5 = [kC, kA, kD]))"
proof -
  let ?M = "maxSizeMB * 1024 * 1024"
  let ?sA = "info_size (info mA)" and ?sB = "info_size (info mB)"
  let ?sC = "info_size (info mC)" and ?sD = "info_size (info mD)"
  let ?B = "(kB, (mB, \<lparr>key = kB, modelId = model_id mB, entry_size = ?sB,
                         lastAccessed = t2, hitCount = 1\<rparr>))"
  let ?C = "(kC, (mC, \<lparr>key = kC, modelId = model_id mC, entry_size = ?sC,
                         lastAccessed = t3, hitCount = 1\<rparr>))"
  let ?A = "(kA, (mA, \<lparr>key = kA, modelId = model_id mA, entry_size = ?sA,
                         lastAccessed = t4, hitCount = 2\<rparr>))"
  let ?D = "(kD, (mD, \<lparr>key = kD, modelId = model_id mD, entry_size = ?sD,
                         lastAccessed = t5, hitCount = 1\<rparr>))"
  define c4 where "c4 = \<lparr>cache = [?B, ?C, ?A], maxSize = ?M,
                          currentSize = ?sA + ?sB + ?sC, unloaded = []\<rparr>"
  define c4' where "c4' = \<lparr>cache = [?C, ?A], maxSize = ?M,
                          currentSize = ?sA + ?sC, unloaded = [model_id mB]\<rparr>"
  define c5 where "c5 = \<lparr>cache = [?C, ?A, ?D], maxSize = ?M,
                          currentSize = ?sA + ?sC + ?sD, unloaded = [model_id mB]\<rparr>"
  have d3: "distinct [kA, kB, kC]" using d by auto
  have ne: "kB \<noteq> kC" "kB \<noteq> kA" "kC \<noteq> kB" "kA \<noteq> kB" "kD \<noteq> kA" "kD \<noteq> kB" "kD \<noteq> kC"
    "kA \<noteq> kD" "kC \<noteq> kD"
    using d by auto
  have run: "abc_then_get maxSizeMB kA mA t1 kB mB t2 kC mC t3 t4 = Some c4"
    unfolding c4_def by (rule abc_state[OF d3 nn fit])
  have scan: "fst (oldest_scan (cache c4) (None, None)) = Some kB"
    using t by (simp add: c4_def)
  have del: "LRUCache_delete c4 kB = c4'"
    using ne by (simp add: LRUCache_delete_def c4_def c4'_def Map_get_def Map_delete_def)
  have ev_empty: "LRUCache_evictLRU c4 = c4" if "kB = []"
    using scan that by (simp add: LRUCache_evictLRU_def)
  have ev: "LRUCache_evictLRU c4 = c4'" if "kB \<noteq> []"
    using scan that del by (simp add: LRUCache_evictLRU_def)
  have c4_facts: "cache c4 \<noteq> []" "maxSize c4 = ?M" "currentSize c4 = ?sA + ?sB + ?sC"
    "unloaded c4 = []" "cache_keys c4 = [kB, kC, kA]"
    "map (\<lambda>kv. lastAccessed (snd (snd kv))) (cache c4) = [t2, t3, t4]"
    by (simp_all add: c4_def cache_keys_def)
  have get4: "Map_get (cache c4) kD = None"
    using ne by (simp add: c4_def Map_get_def)
  have get4': "Map_get (cache c4') kD = None"
    using ne by (simp add: c4'_def Map_get_def)
  have c4'_facts: "cache c4' \<noteq> []" "maxSize c4' = ?M" "currentSize c4' = ?sA + ?sC"
    "unloaded c4' = [model_id mB]"
    by (simp_all add: c4'_def)

  have only_B: "r = Inr () \<and> unloaded c5' = [model_id mB] \<and> cache_keys c5' = [kC, kA, kD]"
    if st: "LRUCache_set c4 kD mD t5 = Some (r, c5')" and one: "length (unloaded c5') = 1"
    for r c5'
  proof -
    from st obtain c1 where c1: "evict_loop c4 ?sD = Some c1"
      by (auto simp: LRUCache_set_def Let_def split: option.splits)
    have c1_eq: "c1 = c4'"
    proof (cases "maxSize c4 < currentSize c4 + ?sD")
      case False
      then have "evict_loop c4 ?sD = Some c4" by (simp add: evict_loop_skip)
      with c1 have e: "c1 = c4" by simp
      from st have "unloaded c5' = []"
        by (cases rule: set_cases) (use c1 e get4 c4_facts in auto)
      with one show ?thesis by simp
    next
      case True
      show ?thesis
      proof (cases "kB = []")
        case empty: True
        have "evict_loop c4 ?sD = None"
          by (rule evict_loop_stuck[OF ev_empty[OF empty] True c4_facts(1)])
        with c1 show ?thesis by simp
      next
        case False
        have l: "evict_loop c4' ?sD = Some c1"
          using c1 evict_loop_step[OF _ c4_facts(1), of ?sD] True ev[OF False] by simp
        note u = evict_loop_unloaded[OF l]
        from st have "length (unloaded c1) \<le> length (unloaded c5')"
          by (cases rule: set_cases) (use c1 in auto)
        with u one c4'_facts(4) show ?thesis by auto
      qed
    qed
    note post = evict_loop_post[OF c1]
    from st show ?thesis
    proof (cases rule: set_cases)
      case (oversized c1')
      with c1 c1_eq have "maxSize c4' < ?sD" by simp
      moreover have "currentSize c4' + ?sD \<le> maxSize c4'"
        using post c1_eq c4'_facts(1) by auto
      ultimately show ?thesis using nn by (simp add: c4'_facts)
    next
      case (fresh c1')
      with c1 c1_eq show ?thesis by (simp add: c4'_def cache_keys_def)
    next
      case (overwrite c1' exModel exEntry)
      with c1 c1_eq get4' show ?thesis by simp
    qed
  qed

  have returns: "\<exists>c5. LRUCache_set c4 kD mD t5 = Some (Inr (), c5)
                        \<and> unloaded c5 = [model_id mB] \<and> cache_keys c5 = [kC, kA, kD]"
    if kne: "kB \<noteq> []" and over: "maxSize c4 < currentSize c4 + ?sD"
      and fits: "currentSize c4 - ?sB + ?sD \<le> maxSize c4"
  proof -
    have "evict_loop c4 ?sD = evict_loop c4' ?sD"
      using evict_loop_step[OF _ c4_facts(1), of ?sD] over ev[OF kne] by simp
    also have "\<dots> = Some c4'"
      using fits by (intro evict_loop_skip) (simp add: c4'_facts c4_facts)
    finally have l: "evict_loop c4 ?sD = Some c4'" .
    have le: "?sD \<le> maxSize c4'" using fits nn by (simp add: c4'_facts c4_facts)
    have "LRUCache_set c4 kD mD t5 = Some (Inr (), c5)"
      using le get4' ne by (simp add: LRUCache_set_def l Let_def) (simp add: c4'_def c5_def)
    then show ?thesis by (auto simp: c5_def cache_keys_def)
  qed

  show ?thesis
    using run c4_facts only_B returns by (intro exI[of _ c4]) blast
qed

text \<open>
  C3 (defect). On a cache of 1 MB, A (400000 bytes), B (300000 bytes, cached under the key
  \<open>""\<close>) and C (300000 bytes) are set in that order and A is then read with \<open>get\<close>, which
  moves A behind C. A \<open>set\<close> of D (300000 bytes) now calls for exactly one eviction: with D
  the sizes exceed the capacity, without B they fit. \<open>evictLRU\<close> finds B, the least recently
  used entry, but its test \<^verbatim>\<open>if (oldestKey)\<close> fails on B's empty key: B is not evicted, the
  state is unchanged and the \<open>set\<close> never returns.
\<close>

theorem lru_set_never_returns_when_B_has_empty_key:
  "\<exists>c4. abc_then_get 1 ''A'' (mk_model ''mA'' 400000) 1 [] (mk_model ''mB'' 300000) 2
            ''C'' (mk_model ''mC'' 300000) 3 4 = Some c4
      \<and> cache_keys c4 = [[], ''C'', ''A'']
      \<and> map (\<lambda>kv. lastAccessed (snd (snd kv))) (cache c4) = [2, 3, 4]
      \<and> maxSize c4 < currentSize c4 + 300000
      \<and> currentSize c4 - 300000 + 300000 \<le> maxSize c4
      \<and> fst (oldest_scan (cache c4) (None, None)) = Some []
      \<and> LRUCache_evictLRU c4 = c4
      \<and> LRUCache_set c4 ''D'' (mk_model ''mD'' 300000) 5 = None"
proof -
  let ?mA = "mk_model ''mA'' 400000" and ?mB = "mk_model ''mB'' 300000"
  let ?mC = "mk_model ''mC'' 300000"
  define c4 where "c4 =
     \<lparr>cache =
         [([], (?mB, \<lparr>key = [], modelId = model_id ?mB, entry_size = info_size (info ?mB),
                       lastAccessed = 2, hitCount = 1\<rparr>)),
          (''C'', (?mC, \<lparr>key = ''C'', modelId = model_id ?mC, entry_size = info_size (info ?mC),
                       lastAccessed = 3, hitCount = 1\<rparr>)),
          (''A'', (?mA, \<lparr>key = ''A'', modelId = model_id ?mA, entry_size = info_size (info ?mA),
                       lastAccessed = 4, hitCount = 2\<rparr>))],
      maxSize = 1 * 1024 * 1024,
      currentSize = info_size (info ?mA) + info_size (info ?mB) + info_size (info ?mC),
      unloaded = []\<rparr>"
  have run: "abc_then_get 1 ''A'' ?mA 1 [] ?mB 2 ''C'' ?mC 3 4 = Some c4"
    unfolding c4_def by (rule abc_state) (simp_all add: mk_model_def)
  have scan: "fst (oldest_scan (cache c4) (None, None)) = Some []"
    by (simp add: c4_def)
  have ev: "LRUCache_evictLRU c4 = c4"
    by (simp add: LRUCache_evictLRU_def scan)
  have sz: "maxSize c4 = 1048576" "currentSize c4 = 1000000" "cache c4 \<noteq> []"
    by (simp_all add: c4_def mk_model_def)
  have "evict_loop c4 300000 = None"
    by (rule evict_loop_stuck[OF ev]) (simp_all add: sz)
  then have hang: "LRUCache_set c4 ''D'' (mk_model ''mD'' 300000) 5 = None"
    by (simp add: LRUCache_set_def mk_model_def)
  have keys: "cache_keys c4 = [[], ''C'', ''A'']"
    "map (\<lambda>kv. lastAccessed (snd (snd kv))) (cache c4) = [2, 3, 4]"
    by (simp_all add: c4_def cache_keys_def)
  show ?thesis
    using run keys scan ev hang sz by (intro exI[of _ c4]) simp
qed

section \<open>Properties of streamWithTimeout\<close>

lemma stream_step_in_time:
  "d < max timeoutMs 1 \<Longrightarrow>
     streamWithTimeout ((Some d, Yields v) # rest) timeoutMs now
       = (TimerArmed now # TimerCleared (now + d) # Yielded (now + d) v
            # fst (streamWithTimeout rest timeoutMs (now + d)),
          snd (streamWithTimeout rest timeoutMs (now + d)))"
  by (simp add: split_def Let_def)

lemma stream_step_slow:
  "max timeoutMs 1 \<le> d \<Longrightarrow>
     streamWithTimeout ((Some d, result) # rest) timeoutMs now
       = ([TimerArmed now, TimerFired (now + max timeoutMs 1),
           ReturnCalled (now + max timeoutMs 1), ReturnSettled (now + d)],
          ThrewTimeout (now + d) timeoutMs)"
proof -
  assume "max timeoutMs 1 \<le> d"
  then have "\<not> d < max timeoutMs 1" by linarith
  then show ?thesis by (simp only: streamWithTimeout.simps option.case if_False)
qed

lemma stream_step_stuck:
  "streamWithTimeout ((None, result) # rest) timeoutMs now
     = ([TimerArmed now, TimerFired (now + max timeoutMs 1),
         ReturnCalled (now + max timeoutMs 1)], NeverSettles)"
  by simp

lemma yielded_items_step:
  "yielded_items (TimerArmed a # TimerCleared b # Yielded c v # events) = v # yielded_items events"
  by (simp add: yielded_items_def)

text \<open>
  The timer is armed anew for every step: when every step yields within the timeout, every
  item is delivered and the wrapper completes, however long the steps take together.
\<close>

lemma stream_all_in_time:
  "list_all (\<lambda>dv. fst dv < max timeoutMs 1) dvs \<Longrightarrow>
     snd (streamWithTimeout (map (\<lambda>dv. (Some (fst dv), Yields (snd dv))) dvs) timeoutMs now)
       = Completed (now + sum_list (map fst dvs))
     \<and> yielded_items
         (fst (streamWithTimeout (map (\<lambda>dv. (Some (fst dv), Yields (snd dv))) dvs) timeoutMs now))
       = map snd dvs"
proof (induction dvs arbitrary: now)
  case Nil
  show ?case by (simp add: yielded_items_def)
next
  case (Cons dv dvs)
  have d: "fst dv < max timeoutMs 1" and rest: "list_all (\<lambda>dv. fst dv < max timeoutMs 1) dvs"
    using Cons.prems by simp_all
  from Cons.IH[OF rest, of "now + fst dv"] show ?case
    by (simp add: stream_step_in_time[OF d] yielded_items_step add.assoc del: streamWithTimeout.simps)
qed

text \<open>
  A step that settles, but not before the timer fires: the items of the earlier steps have
  been delivered, \<^verbatim>\<open>generator.return()\<close> is called when the timer fires, and the timeout
  error reaches the consumer when the slow step has settled.
\<close>

lemma stream_slow_step:
  "list_all (\<lambda>dv. fst dv < max timeoutMs 1) dvs \<Longrightarrow> max timeoutMs 1 \<le> d \<Longrightarrow>
     snd (streamWithTimeout
            (map (\<lambda>dv. (Some (fst dv), Yields (snd dv))) dvs @ (Some d, result) # rest)
            timeoutMs now)
       = ThrewTimeout (now + sum_list (map fst dvs) + d) timeoutMs
     \<and> yielded_items (fst (streamWithTimeout
            (map (\<lambda>dv. (Some (fst dv), Yields (snd dv))) dvs @ (Some d, result) # rest)
            timeoutMs now))
       = map snd dvs
     \<and> ReturnCalled (now + sum_list (map fst dvs) + max timeoutMs 1)
         \<in> set (fst (streamWithTimeout
            (map (\<lambda>dv. (Some (fst dv), Yields (snd dv))) dvs @ (Some d, result) # rest)
            timeoutMs now))"
proof (induction dvs arbitrary: now)
  case Nil
  then show ?case
    by (simp add: stream_step_slow yielded_items_def del: streamWithTimeout.simps)
next
  case (Cons dv dvs)
  have d: "fst dv < max timeoutMs 1" and rest: "list_all (\<lambda>dv. fst dv < max timeoutMs 1) dvs"
    using Cons.prems(1) by simp_all
  from Cons.IH[OF rest Cons.prems(2), of "now + fst dv"] show ?case
    by (simp add: stream_step_in_time[OF d] yielded_items_step add.assoc del: streamWithTimeout.simps)
qed

text \<open>A step that never settles: the wrapper never settles either.\<close>

lemma stream_stuck_step:
  "list_all (\<lambda>dv. fst dv < max timeoutMs 1) dvs \<Longrightarrow>
     snd (streamWithTimeout
            (map (\<lambda>dv. (Some (fst dv), Yields (snd dv))) dvs @ (None, result) # rest)
            timeoutMs now)
       = NeverSettles"
proof (induction dvs arbitrary: now)
  case Nil
  then show ?case by (simp add: stream_step_stuck del: streamWithTimeout.simps)
next
  case (Cons dv dvs)
  have d: "fst dv < max timeoutMs 1" and rest: "list_all (\<lambda>dv. fst dv < max timeoutMs 1) dvs"
    using Cons.prems(1) by simp_all
  from Cons.IH[OF rest, of "now + fst dv"] show ?case
    by (simp add: stream_step_in_time[OF d] del: streamWithTimeout.simps)
qed

text \<open>
  C7 (defect). With a timeout of 100 ms: two steps of 60 ms each are both delivered, 120 ms
  in all, so the timeout is per step; a step of 250 ms makes the wrapper throw the timeout
  error, after \<^verbatim>\<open>generator.return()\<close> was called at 100 ms, but only at 250 ms, when the slow
  step has settled. A step that never settles, after one item delivered at 5 ms, exceeds
  the timeout too: the timer fires at 105 ms and \<^verbatim>\<open>generator.return()\<close> is called, but the
  promise it returns waits behind the pending \<^verbatim>\<open>next()\<close>, the \<^verbatim>\<open>finally\<close> block never
  ends, and no timeout error ever reaches the consumer.
\<close>

theorem streamWithTimeout_never_fails_on_stuck_step:
  "streamWithTimeout [(Some 60, Yields ''a''), (Some 60, Yields ''b'')] 100 0
     = ([TimerArmed 0, TimerCleared 60, Yielded 60 ''a'',
         TimerArmed 60, TimerCleared 120, Yielded 120 ''b'',
         TimerArmed 120, TimerCleared 120, ReturnCalled 120, ReturnSettled 120],
        Completed 120)
   \<and> streamWithTimeout [(Some 250, Yields ''a'')] 100 0
     = ([TimerArmed 0, TimerFired 100, ReturnCalled 100, ReturnSettled 250],
        ThrewTimeout 250 100)
   \<and> streamWithTimeout [(Some 5, Yields ''a''), (None, Yields ''b'')] 100 0
     = ([TimerArmed 0, TimerCleared 5, Yielded 5 ''a'',
         TimerArmed 5, TimerFired 105, ReturnCalled 105],
        NeverSettles)"
  by simp

end
